theory Spec2Isabelle
  imports Main
begin

section \<open>The std::string operations that inipp.hh calls\<close>

text \<open>
  A \<open>std::string\<close> is a \<^typ>\<open>string\<close> (a list of bytes). The search members return
  \<open>std::string::npos\<close> when nothing is found; the model returns \<open>None\<close> there and
  \<open>Some pos\<close> otherwise.
\<close>

text \<open>\<open>s.find_first_not_of(cs)\<close>: the first position whose character is not in \<open>cs\<close>.\<close>

fun find_first_not_of :: "string \<Rightarrow> string \<Rightarrow> nat option" where
  "find_first_not_of [] cs = None"
| "find_first_not_of (x # xs) cs =
     (if x \<in> set cs then map_option Suc (find_first_not_of xs cs) else Some 0)"

text \<open>\<open>s.find_last_not_of(cs)\<close>: the last position whose character is not in \<open>cs\<close>.\<close>

fun find_last_not_of :: "string \<Rightarrow> string \<Rightarrow> nat option" where
  "find_last_not_of [] cs = None"
| "find_last_not_of (x # xs) cs =
     (case find_last_not_of xs cs of
        Some i \<Rightarrow> Some (Suc i)
      | None \<Rightarrow> if x \<in> set cs then None else Some 0)"

text \<open>\<open>s.find_first_of(cs)\<close>: the first position whose character is in \<open>cs\<close>.\<close>

fun find_first_of :: "string \<Rightarrow> string \<Rightarrow> nat option" where
  "find_first_of [] cs = None"
| "find_first_of (x # xs) cs =
     (if x \<in> set cs then Some 0 else map_option Suc (find_first_of xs cs))"

text \<open>\<open>starts_with p s\<close>: \<open>p\<close> stands at position 0 of \<open>s\<close>.\<close>

fun starts_with :: "string \<Rightarrow> string \<Rightarrow> bool" where
  "starts_with [] s = True"
| "starts_with (p # ps) [] = False"
| "starts_with (p # ps) (x # xs) = (p = x \<and> starts_with ps xs)"

text \<open>\<open>s.find(sep)\<close>: the first position where the substring \<open>sep\<close> starts.\<close>

fun find_str :: "string \<Rightarrow> string \<Rightarrow> nat option" where
  "find_str [] sep = (if sep = [] then Some 0 else None)"
| "find_str (x # xs) sep =
     (if starts_with sep (x # xs) then Some 0 else map_option Suc (find_str xs sep))"

text \<open>
  \<open>s.erase(pos)\<close> keeps the first \<open>pos\<close> characters, \<open>s.erase(0, n)\<close> drops the first
  \<open>n\<close>, \<open>s.erase()\<close> clears the string, and \<open>s.substr(pos, n)\<close> is the (at most) \<open>n\<close>
  characters from \<open>pos\<close> on. The library throws \<open>std::out_of_range\<close> when
  \<open>pos > s.size()\<close>; every call of inipp.hh passes a position that a search on the same
  string returned (or the constant 1 on a string of at least two characters), so the
  lemmas \<open>find_first_not_of_le\<close>, \<open>find_last_not_of_less\<close>, \<open>find_first_of_less\<close> and
  \<open>find_str_le\<close> below show that no call is out of range.
\<close>

definition erase_from :: "string \<Rightarrow> nat \<Rightarrow> string" where
  "erase_from s pos = take pos s"

definition erase_front :: "string \<Rightarrow> nat \<Rightarrow> string" where
  "erase_front s n = drop n s"

definition substr :: "string \<Rightarrow> nat \<Rightarrow> nat \<Rightarrow> string" where
  "substr s pos n = take n (drop pos s)"

section \<open>Text utilities (namespace private\_)\<close>

text \<open>The default argument of \<open>trim\<close>: \<open>" \t\n\r\f\v"\<close>.\<close>

definition whitespace :: string where
  "whitespace = [CHR '' '', CHR 0x09, CHR 0x0A, CHR 0x0D, CHR 0x0C, CHR 0x0B]"

definition rstrip :: "string \<Rightarrow> string \<Rightarrow> string" where
  "rstrip s c_to_strip =
     (case find_last_not_of s c_to_strip of
        None \<Rightarrow> []
      | Some endpos \<Rightarrow> erase_from s (endpos + 1))"

definition lstrip :: "string \<Rightarrow> string \<Rightarrow> string" where
  "lstrip s c_to_strip =
     (case find_first_not_of s c_to_strip of
        None \<Rightarrow> []
      | Some startpos \<Rightarrow> erase_front s startpos)"

definition trim :: "string \<Rightarrow> string \<Rightarrow> string" where
  "trim str ws = rstrip (lstrip str ws) ws"

text \<open>
  \<open>split(in, sep, first, second)\<close> returns false when \<open>sep\<close> does not occur (\<open>None\<close>
  here), and otherwise sets the two output parameters (\<open>Some (first, second)\<close>).
\<close>

definition split_sep :: "string \<Rightarrow> string \<Rightarrow> (string \<times> string) option" where
  "split_sep inp sep =
     (case find_str inp sep of
        None \<Rightarrow> None
      | Some eqpos \<Rightarrow>
          Some (substr inp 0 eqpos,
                substr inp (eqpos + length sep) (length inp - eqpos - length sep)))"

text \<open>The two overloads of \<open>strip_comment\<close>: with a set of marks, and the default.\<close>

definition strip_comment_mark :: "string \<Rightarrow> string \<Rightarrow> string" where
  "strip_comment_mark s mark =
     (case find_first_of s mark of
        None \<Rightarrow> s
      | Some pos \<Rightarrow> erase_from s pos)"

definition strip_comment :: "string \<Rightarrow> string" where
  "strip_comment s = strip_comment_mark (strip_comment_mark s ''#'') '';''"

text \<open>
  The comment rule as the specification words it: truncate a string at the first
  occurrence of one marker character, if there is any.
\<close>

definition truncate_at :: "char \<Rightarrow> string \<Rightarrow> string" where
  "truncate_at m s = takeWhile (\<lambda>c. c \<noteq> m) s"

definition shorter_of :: "string \<Rightarrow> string \<Rightarrow> string" where
  "shorter_of a b = (if length a \<le> length b then a else b)"

section \<open>Errors\<close>

text \<open>
  The three exception classes derive from \<open>std::runtime_error\<close>; each value carries the
  message its constructor builds (\<open>what()\<close>). An operation that can throw returns
  \<open>exn + 'a\<close>, with \<open>Inl\<close> for the exception.
\<close>

datatype exn =
    Unknown_entry_error string
  | Unknown_section_error string
  | Syntax_error string

definition quote :: string where
  "quote = [CHR 0x27]"

text \<open>\<open>unknown_entry_error(key)\<close>\<close>

definition unknown_entry_error :: "string \<Rightarrow> exn" where
  "unknown_entry_error key = Unknown_entry_error (''Unknown entry '' @ quote @ key @ quote @ ''.'')"

text \<open>\<open>unknown_entry_error(key, section)\<close>\<close>

definition unknown_entry_error_in :: "string \<Rightarrow> string \<Rightarrow> exn" where
  "unknown_entry_error_in key sect =
     Unknown_entry_error (''Unknown entry '' @ quote @ key @ quote @ '' in section '' @ quote
                          @ sect @ quote @ ''.'')"

definition unknown_section_error :: "string \<Rightarrow> exn" where
  "unknown_section_error sect =
     Unknown_section_error (''Unknown section '' @ quote @ sect @ quote @ ''.'')"

definition syntax_error :: "string \<Rightarrow> exn" where
  "syntax_error msg = Syntax_error msg"

section \<open>The store (class inifile)\<close>

text \<open>
  \<open>kv_t\<close> and \<open>kkv_t\<close> are \<open>std::unordered_map\<close>s; the members \<open>sections_\<close> and
  \<open>defaultsection_\<close> are the fields \<open>sections\<close> and \<open>defaultsection\<close> (a name cannot end
  with an underscore here).
\<close>

type_synonym kv_t = "string \<rightharpoonup> string"
type_synonym kkv_t = "string \<rightharpoonup> kv_t"

record inifile =
  sections :: kkv_t
  defaultsection :: kv_t

text \<open>
  \<open>cursec\<close> points either at \<open>defaultsection_\<close> (\<open>None\<close>) or at the mapped value of one key
  of \<open>sections_\<close> (\<open>Some name\<close>); references into an \<open>unordered_map\<close> stay valid when
  other keys are inserted.
\<close>

type_synonym cursec = "string option"

text \<open>\<open>sections_[name]\<close>: \<open>operator[]\<close> inserts an empty map when the key is new.\<close>

definition subscript :: "kkv_t \<Rightarrow> string \<Rightarrow> kkv_t" where
  "subscript m name = (case m name of None \<Rightarrow> m(name \<mapsto> Map.empty) | Some kv \<Rightarrow> m)"

text \<open>
  \<open>(*cursec)[k] = v\<close>. The branch for a section that is not in the store is never taken
  from the constructor (lemma \<open>process_line_cursec\<close>): the pointer comes from \<open>operator[]\<close>.
\<close>

definition store_entry :: "cursec \<Rightarrow> string \<Rightarrow> string \<Rightarrow> inifile \<Rightarrow> inifile" where
  "store_entry cur k v ini =
     (case cur of
        None \<Rightarrow> ini\<lparr>defaultsection := (defaultsection ini)(k \<mapsto> v)\<rparr>
      | Some name \<Rightarrow>
          ini\<lparr>sections := (sections ini)
                 (name \<mapsto> (case sections ini name of None \<Rightarrow> Map.empty | Some kv \<Rightarrow> kv)(k \<mapsto> v))\<rparr>)"

section \<open>The line parser (constructor of inifile)\<close>

text \<open>
  The stream is modelled by the characters it still holds. \<open>std::getline\<close> fails on an
  exhausted stream; otherwise it delivers the characters before the next newline and
  consumes the newline.
\<close>

definition getline :: "string \<Rightarrow> (string \<times> string) option" where
  "getline infile =
     (if infile = [] then None
      else Some (takeWhile (\<lambda>c. c \<noteq> CHR 0x0A) infile,
                 drop 1 (dropWhile (\<lambda>c. c \<noteq> CHR 0x0A) infile)))"

text \<open>The body of the \<open>while\<close> loop: \<open>Inr\<close> is \<open>continue\<close>, \<open>Inl\<close> is \<open>throw\<close>.\<close>

definition process_line :: "string \<Rightarrow> cursec \<Rightarrow> inifile \<Rightarrow> exn + (cursec \<times> inifile)" where
  "process_line raw cur ini =
     (let line = strip_comment (trim raw whitespace) in
      if line = [] then Inr (cur, ini)
      else if line ! 0 = CHR ''['' then
        (if line ! (length line - 1) \<noteq> CHR '']'' then
           Inl (syntax_error (''The section '' @ quote @ line @ quote
                              @ '' is missing a closing bracket.''))
         else
           (let name = trim (substr line 1 (length line - 2)) whitespace
            in Inr (Some name, ini\<lparr>sections := subscript (sections ini) name\<rparr>)))
      else
        (case split_sep line ''='' of
           Some (key, val) \<Rightarrow>
             Inr (cur, store_entry cur (trim key whitespace) (trim val whitespace) ini)
         | None \<Rightarrow>
             Inl (syntax_error (''The line '' @ quote @ line @ quote @ '' is invalid.''))))"

lemma getline_shorter:
  "getline infile = Some (line, rest) \<Longrightarrow> length rest < length infile"
proof -
  assume a: "getline infile = Some (line, rest)"
  then have ne: "infile \<noteq> []" by (auto simp: getline_def split: if_splits)
  from a have "rest = drop 1 (dropWhile (\<lambda>c. c \<noteq> CHR 0x0A) infile)"
    by (auto simp: getline_def split: if_splits)
  moreover have "length (dropWhile (\<lambda>c. c \<noteq> CHR 0x0A) infile) \<le> length infile"
    by (rule length_dropWhile_le)
  ultimately show ?thesis using ne by (cases "dropWhile (\<lambda>c. c \<noteq> CHR 0x0A) infile") auto
qed

function inifile_loop :: "string \<Rightarrow> cursec \<Rightarrow> inifile \<Rightarrow> exn + inifile" where
  "inifile_loop infile cur ini =
     (case getline infile of
        None \<Rightarrow> Inr ini
      | Some (line, rest) \<Rightarrow>
          (case process_line line cur ini of
             Inl e \<Rightarrow> Inl e
           | Inr (cur', ini') \<Rightarrow> inifile_loop rest cur' ini'))"
  by pat_completeness auto
termination
  by (relation "measure (\<lambda>(infile, cur, ini). length infile)") (auto dest: getline_shorter)

declare inifile_loop.simps [simp del]

text \<open>
  The constructor: \<open>cursec\<close> starts at the default section and both maps start empty.
  A result \<open>Inl e\<close> is the exception leaving the constructor, so that no object exists.
\<close>

definition inifile_ctor :: "string \<Rightarrow> exn + inifile" where
  "inifile_ctor infile =
     inifile_loop infile None \<lparr>sections = Map.empty, defaultsection = Map.empty\<rparr>"

text \<open>
  For the proofs the loop is split in two: \<open>lines_of\<close> is the sequence of lines that
  the calls of \<open>std::getline\<close> deliver, and \<open>run_lines\<close> runs the loop body over a list
  of lines. Lemma \<open>inifile_loop_lines\<close> shows that the loop is their composition.
\<close>

function lines_of :: "string \<Rightarrow> string list" where
  "lines_of infile =
     (case getline infile of
        None \<Rightarrow> []
      | Some (line, rest) \<Rightarrow> line # lines_of rest)"
  by pat_completeness auto
termination
  by (relation "measure length") (auto dest: getline_shorter)

declare lines_of.simps [simp del]

fun run_lines :: "string list \<Rightarrow> cursec \<Rightarrow> inifile \<Rightarrow> exn + inifile" where
  "run_lines [] cur ini = Inr ini"
| "run_lines (l # ls) cur ini =
     (case process_line l cur ini of
        Inl e \<Rightarrow> Inl e
      | Inr (cur', ini') \<Rightarrow> run_lines ls cur' ini')"


text \<open>
  A malformed line, in the words of the specification: after whitespace trimming
  followed by comment stripping the line is not empty, and either it begins with \<open>[\<close>
  and does not end with \<open>]\<close>, or it does not begin with \<open>[\<close> and holds no \<open>=\<close>.
\<close>

definition malformed :: "string \<Rightarrow> bool" where
  "malformed raw =
     (let t = strip_comment (trim raw whitespace)
      in t \<noteq> [] \<and>
         ((hd t = CHR ''['' \<and> last t \<noteq> CHR '']'') \<or>
          (hd t \<noteq> CHR ''['' \<and> CHR ''='' \<notin> set t)))"


section \<open>Accessors\<close>

text \<open>\<open>inifile::get(section, key)\<close>\<close>

definition inifile_get :: "inifile \<Rightarrow> string \<Rightarrow> string \<Rightarrow> exn + string" where
  "inifile_get ini sect key =
     (case sections ini sect of
        None \<Rightarrow> Inl (unknown_section_error sect)
      | Some kv \<Rightarrow>
          (case kv key of
             None \<Rightarrow> Inl (unknown_entry_error_in sect key)
           | Some v \<Rightarrow> Inr v))"

text \<open>\<open>inifile::get(key)\<close>\<close>

definition inifile_get1 :: "inifile \<Rightarrow> string \<Rightarrow> exn + string" where
  "inifile_get1 ini key =
     (case defaultsection ini key of
        None \<Rightarrow> Inl (unknown_entry_error key)
      | Some v \<Rightarrow> Inr v)"

text \<open>
  \<open>inifile::dget(section, key, default_value)\<close>: the two handlers catch
  \<open>unknown_section_error\<close> and \<open>unknown_entry_error\<close>; any other exception would pass.
\<close>

definition inifile_dget :: "inifile \<Rightarrow> string \<Rightarrow> string \<Rightarrow> string \<Rightarrow> exn + string" where
  "inifile_dget ini sect key default_value =
     (case inifile_get ini sect key of
        Inr v \<Rightarrow> Inr v
      | Inl (Unknown_section_error m) \<Rightarrow> Inr default_value
      | Inl (Unknown_entry_error m) \<Rightarrow> Inr default_value
      | Inl e \<Rightarrow> Inl e)"

text \<open>\<open>inifile::dget(key, default_value)\<close>: the handler catches \<open>unknown_entry_error\<close>.\<close>

definition inifile_dget1 :: "inifile \<Rightarrow> string \<Rightarrow> string \<Rightarrow> exn + string" where
  "inifile_dget1 ini key default_value =
     (case inifile_get1 ini key of
        Inr v \<Rightarrow> Inr v
      | Inl (Unknown_entry_error m) \<Rightarrow> Inr default_value
      | Inl e \<Rightarrow> Inl e)"

text \<open>
  Class \<open>inisection\<close>: the members \<open>_section\<close> and \<open>_ini\<close>. The reference to the store is
  modelled by the store itself, which no member function changes.
\<close>

record inisection =
  sec_name :: string
  sec_ini :: inifile

definition inifile_section :: "inifile \<Rightarrow> string \<Rightarrow> exn + inisection" where
  "inifile_section ini sect =
     (case sections ini sect of
        None \<Rightarrow> Inl (unknown_section_error sect)
      | Some kv \<Rightarrow> Inr \<lparr>sec_name = sect, sec_ini = ini\<rparr>)"

definition inisection_name :: "inisection \<Rightarrow> string" where
  "inisection_name h = sec_name h"

definition inisection_get :: "inisection \<Rightarrow> string \<Rightarrow> exn + string" where
  "inisection_get h key = inifile_get (sec_ini h) (sec_name h) key"

definition inisection_dget :: "inisection \<Rightarrow> string \<Rightarrow> string \<Rightarrow> exn + string" where
  "inisection_dget h key default_val = inifile_dget (sec_ini h) (sec_name h) key default_val"

section \<open>The specification's reading of a document\<close>

text \<open>
  The definitions of this section follow the words of the specification, for the
  comparison with the code. A line that is not malformed is blank (\<open>None\<close>), a section
  header (the trimmed text between the brackets) or an entry (the trimmed texts before
  and after the first \<open>=\<close>).
\<close>

datatype item = Header string | Entry string string

definition classify :: "string \<Rightarrow> item option" where
  "classify raw =
     (let t = strip_comment (trim raw whitespace) in
      if t = [] then None
      else if hd t = CHR ''['' then Some (Header (trim (butlast (tl t)) whitespace))
      else Some (Entry (trim (takeWhile (\<lambda>c. c \<noteq> CHR ''='') t) whitespace)
                       (trim (drop 1 (dropWhile (\<lambda>c. c \<noteq> CHR ''='') t)) whitespace)))"

text \<open>
  The entries of a list of lines in their order, each with the section it is written
  under: the default section (\<open>None\<close>) until the first header, then the name of the
  latest header. \<open>declared\<close> lists the header names.
\<close>

fun entries_from :: "cursec \<Rightarrow> string list \<Rightarrow> (cursec \<times> string \<times> string) list" where
  "entries_from cur [] = []"
| "entries_from cur (l # ls) =
     (case classify l of
        None \<Rightarrow> entries_from cur ls
      | Some (Header n) \<Rightarrow> entries_from (Some n) ls
      | Some (Entry k v) \<Rightarrow> (cur, k, v) # entries_from cur ls)"

fun declared :: "string list \<Rightarrow> string list" where
  "declared [] = []"
| "declared (l # ls) =
     (case classify l of
        Some (Header n) \<Rightarrow> n # declared ls
      | _ \<Rightarrow> declared ls)"

text \<open>
  Last write wins: the value of the last pair with the key, over the entries of one
  section.
\<close>

definition last_of :: "(string \<times> string) list \<Rightarrow> string \<Rightarrow> string option" where
  "last_of kvs key =
     (case filter (\<lambda>(k, v). k = key) kvs of
        [] \<Rightarrow> None
      | x # xs \<Rightarrow> Some (snd (last (x # xs))))"

definition entries_in :: "(cursec \<times> string \<times> string) list \<Rightarrow> cursec \<Rightarrow> (string \<times> string) list" where
  "entries_in es sec = map snd (filter (\<lambda>e. fst e = sec) es)"

definition last_value :: "(cursec \<times> string \<times> string) list \<Rightarrow> cursec \<Rightarrow> string \<Rightarrow> string option" where
  "last_value es sec key = last_of (entries_in es sec) key"


text \<open>
  \<open>cur_ok\<close>: the pointer \<open>cursec\<close> is valid. \<open>base_of\<close>: the map of a section, empty when
  the section does not exist.
\<close>

definition cur_ok :: "cursec \<Rightarrow> inifile \<Rightarrow> bool" where
  "cur_ok cur ini = (case cur of None \<Rightarrow> True | Some n \<Rightarrow> sections ini n \<noteq> None)"

definition base_of :: "inifile \<Rightarrow> string \<Rightarrow> kv_t" where
  "base_of ini s = (case sections ini s of None \<Rightarrow> Map.empty | Some kv \<Rightarrow> kv)"

text \<open>
  A stored text is clean when trimming and comment stripping leave it as it is.
\<close>

definition clean :: "string \<Rightarrow> bool" where
  "clean v = (trim v whitespace = v \<and> strip_comment v = v)"

text \<open>
  \<open>is_header\<close>: the line is a section header. \<open>plain_entries\<close>: the entries of a list of
  lines as key/value pairs, in their order.
\<close>

definition is_header :: "string \<Rightarrow> bool" where
  "is_header l = (case classify l of Some (Header n) \<Rightarrow> True | _ \<Rightarrow> False)"

fun plain_entries :: "string list \<Rightarrow> (string \<times> string) list" where
  "plain_entries [] = []"
| "plain_entries (l # ls) =
     (case classify l of
        Some (Entry k v) \<Rightarrow> (k, v) # plain_entries ls
      | _ \<Rightarrow> plain_entries ls)"

section \<open>Typed accessors (getval)\<close>

text \<open>
  \<open>getval<T>\<close> reads the stored text through a \<open>std::istringstream\<close>. The extraction
  operators are the C++ standard library's, not code of inipp.hh; they are modelled
  after the C++ standard ([istream.formatted], [facet.num.get.virtuals]) for the classic
  \<open>"C"\<close> locale, which is the global locale unless the program replaces it. A stream is
  modelled by the characters it has not read yet, and an extraction returns \<open>None\<close>
  when it sets \<open>failbit\<close>, or the value with the unread characters.

  \<open>isspace\<close> is \<open>std::isspace\<close> in the \<open>"C"\<close> locale, \<open>skipws\<close> the whitespace skipping
  of a formatted input function, and \<open>extract_char\<close> is \<open>i >> c\<close> for a \<open>char\<close>: it fails
  when only whitespace is left.
\<close>

definition isspace :: "char \<Rightarrow> bool" where
  "isspace c = (c \<in> set [CHR '' '', CHR 0x09, CHR 0x0A, CHR 0x0B, CHR 0x0C, CHR 0x0D])"

definition skipws :: "string \<Rightarrow> string" where
  "skipws s = dropWhile isspace s"

definition extract_char :: "string \<Rightarrow> (char \<times> string) option" where
  "extract_char s = (case skipws s of [] \<Rightarrow> None | c # r \<Rightarrow> Some (c, r))"

text \<open>
  \<open>i >> std::boolalpha >> rv\<close> for \<open>bool\<close>: the characters are matched against
  \<open>numpunct::truename()\<close> and \<open>falsename()\<close>, which are \<open>"true"\<close> and \<open>"false"\<close>; the
  comparison is by character, and the matched name is consumed.
\<close>

definition extract_bool :: "string \<Rightarrow> (bool \<times> string) option" where
  "extract_bool s =
     (let t = skipws s in
      if starts_with ''true'' t then Some (True, drop 4 t)
      else if starts_with ''false'' t then Some (False, drop 5 t)
      else None)"

text \<open>
  \<open>i >> rv\<close> for \<open>int\<close> (\<open>boolalpha\<close> has no effect on it): an optional sign and a
  non-empty run of decimal digits; \<open>failbit\<close> when there is no digit or when the value
  does not fit a 32-bit \<open>int\<close>.
\<close>

definition isdigit :: "char \<Rightarrow> bool" where
  "isdigit c = (c \<in> set ''0123456789'')"

definition digit_val :: "char \<Rightarrow> int" where
  "digit_val c = int (of_char c) - 48"

definition decimal :: "string \<Rightarrow> int" where
  "decimal ds = foldl (\<lambda>a d. 10 * a + digit_val d) 0 ds"

definition extract_int :: "string \<Rightarrow> (int \<times> string) option" where
  "extract_int s =
     (let t = skipws s;
          neg = (t \<noteq> [] \<and> hd t = CHR ''-'');
          u = (if t \<noteq> [] \<and> (hd t = CHR ''-'' \<or> hd t = CHR ''+'') then tl t else t);
          ds = takeWhile isdigit u;
          v = (if neg then - decimal ds else decimal ds)
      in if ds = [] then None
         else if - 2147483648 \<le> v \<and> v \<le> 2147483647 then Some (v, dropWhile isdigit u)
         else None)"

text \<open>
  \<open>inifile::getval<T>\<close> and \<open>inisection::getval<T>\<close>. The first parameter stands for
  \<open>operator>>\<close> at the type \<open>T\<close>. \<open>catch (...)\<close> turns every exception of \<open>get\<close> into
  the default; \<open>(i >> std::boolalpha >> rv) && !(i >> c)\<close> holds when the extraction
  succeeds and no further character can be extracted.
\<close>

definition inifile_getval ::
  "(string \<Rightarrow> ('a \<times> string) option) \<Rightarrow> inifile \<Rightarrow> string \<Rightarrow> string \<Rightarrow> 'a \<Rightarrow> 'a" where
  "inifile_getval extr ini sec key def =
     (case inifile_get ini sec key of
        Inl e \<Rightarrow> def
      | Inr src \<Rightarrow>
          (case extr src of
             None \<Rightarrow> def
           | Some (rv, rest) \<Rightarrow>
               (case extract_char rest of None \<Rightarrow> rv | Some c \<Rightarrow> def)))"

definition inisection_getval ::
  "(string \<Rightarrow> ('a \<times> string) option) \<Rightarrow> inisection \<Rightarrow> string \<Rightarrow> 'a \<Rightarrow> 'a" where
  "inisection_getval extr h key def =
     (case inisection_get h key of
        Inl e \<Rightarrow> def
      | Inr src \<Rightarrow>
          (case extr src of
             None \<Rightarrow> def
           | Some (rv, rest) \<Rightarrow>
               (case extract_char rest of None \<Rightarrow> rv | Some c \<Rightarrow> def)))"

text \<open>The overloads of \<open>getval\<close> for a \<open>const char*\<close> or \<open>std::string\<close> default.\<close>

definition inifile_getval_str :: "inifile \<Rightarrow> string \<Rightarrow> string \<Rightarrow> string \<Rightarrow> string" where
  "inifile_getval_str ini sec key def =
     (case inifile_dget ini sec key def of Inl e \<Rightarrow> def | Inr v \<Rightarrow> v)"

definition inisection_getval_str :: "inisection \<Rightarrow> string \<Rightarrow> string \<Rightarrow> string" where
  "inisection_getval_str h key def =
     (case inisection_dget h key def of Inl e \<Rightarrow> def | Inr v \<Rightarrow> v)"

text \<open>
  Letter-case variants, for the statement about boolean texts: \<open>case_variant s w\<close> holds
  when \<open>s\<close> is the lower-case word \<open>w\<close> with some of its letters in upper case.
\<close>

definition to_upper :: "char \<Rightarrow> char" where
  "to_upper c =
     (case map_of (zip ''abcdefghijklmnopqrstuvwxyz'' ''ABCDEFGHIJKLMNOPQRSTUVWXYZ'') c of
        None \<Rightarrow> c
      | Some u \<Rightarrow> u)"

definition case_variant :: "string \<Rightarrow> string \<Rightarrow> bool" where
  "case_variant s w = list_all2 (\<lambda>a b. a = b \<or> a = to_upper b) s w"

section \<open>Facts about the string operations\<close>

lemma find_first_not_of_le:
  "find_first_not_of s cs = Some i \<Longrightarrow> i \<le> length s"
  by (induction s arbitrary: i) (auto split: if_splits)

lemma find_last_not_of_less:
  "find_last_not_of s cs = Some i \<Longrightarrow> i + 1 \<le> length s"
  by (induction s arbitrary: i) (auto split: if_splits option.splits)

lemma find_first_of_less:
  "find_first_of s cs = Some i \<Longrightarrow> i < length s"
  by (induction s arbitrary: i) (auto split: if_splits)

lemma starts_with_length:
  "starts_with p s \<Longrightarrow> length p \<le> length s"
  by (induction p s rule: starts_with.induct) auto

lemma find_str_le:
  "find_str s sep = Some i \<Longrightarrow> i + length sep \<le> length s"
proof (induction s arbitrary: i)
  case Nil
  then show ?case by (simp split: if_splits)
next
  case (Cons x xs)
  show ?case
  proof (cases "starts_with sep (x # xs)")
    case True
    with Cons.prems have "i = 0" by simp
    with starts_with_length [OF True] show ?thesis by simp
  next
    case False
    with Cons.prems obtain j where "find_str xs sep = Some j" "i = Suc j" by auto
    with Cons.IH [of j] show ?thesis by simp
  qed
qed

lemma lstrip_dropWhile:
  "lstrip s cs = dropWhile (\<lambda>c. c \<in> set cs) s"
proof -
  have "(case find_first_not_of s cs of None \<Rightarrow> [] | Some i \<Rightarrow> drop i s)
        = dropWhile (\<lambda>c. c \<in> set cs) s"
    by (induction s) (auto split: option.splits)
  then show ?thesis unfolding lstrip_def erase_front_def .
qed

lemma rstrip_Cons:
  "rstrip (x # xs) cs =
     (if rstrip xs cs = [] \<and> x \<in> set cs then [] else x # rstrip xs cs)"
  by (auto simp: rstrip_def erase_from_def split: option.splits)

lemma rstrip_Nil: "rstrip [] cs = []"
  by (simp add: rstrip_def)

lemma rstrip_append_keep:
  "x \<notin> set cs \<Longrightarrow> rstrip (xs @ x # ys) cs = xs @ x # rstrip ys cs"
  by (induction xs) (auto simp: rstrip_Cons)

lemma rstrip_all_strip:
  "set s \<subseteq> set cs \<Longrightarrow> rstrip s cs = []"
  by (induction s) (auto simp: rstrip_Cons rstrip_Nil)

lemma rstrip_rev_dropWhile:
  "rstrip s cs = rev (dropWhile (\<lambda>c. c \<in> set cs) (rev s))"
proof (induction s)
  case Nil
  show ?case by (simp add: rstrip_Nil)
next
  case (Cons x xs)
  show ?case
  proof (cases "\<forall>c \<in> set xs. c \<in> set cs")
    case True
    then have "rstrip xs cs = []" by (auto intro: rstrip_all_strip)
    moreover from True have "dropWhile (\<lambda>c. c \<in> set cs) (rev xs @ [x])
        = dropWhile (\<lambda>c. c \<in> set cs) [x]"
      by (simp add: dropWhile_append)
    ultimately show ?thesis by (simp add: rstrip_Cons)
  next
    case False
    then have ne: "dropWhile (\<lambda>c. c \<in> set cs) (rev xs) \<noteq> []" by auto
    then have "dropWhile (\<lambda>c. c \<in> set cs) (rev xs @ [x])
        = dropWhile (\<lambda>c. c \<in> set cs) (rev xs) @ [x]"
      using False by (simp add: dropWhile_append)
    moreover from ne Cons.IH have "rstrip xs cs \<noteq> []" by simp
    ultimately show ?thesis using Cons.IH by (simp add: rstrip_Cons)
  qed
qed

lemma strip_comment_mark_takeWhile:
  "strip_comment_mark s mark = takeWhile (\<lambda>c. c \<notin> set mark) s"
proof -
  have "(case find_first_of s mark of None \<Rightarrow> s | Some i \<Rightarrow> take i s)
        = takeWhile (\<lambda>c. c \<notin> set mark) s"
    by (induction s) (auto split: option.splits)
  then show ?thesis unfolding strip_comment_mark_def erase_from_def .
qed

lemma strip_comment_takeWhile:
  "strip_comment s = takeWhile (\<lambda>c. c \<noteq> CHR ''#'' \<and> c \<noteq> CHR '';'') s"
  by (induction s) (auto simp: strip_comment_def strip_comment_mark_takeWhile)

section \<open>Facts about the line parser\<close>

lemma inifile_loop_lines:
  "inifile_loop infile cur ini = run_lines (lines_of infile) cur ini"
proof (induction infile cur ini rule: inifile_loop.induct)
  case (1 infile cur ini)
  have L: "inifile_loop infile cur ini =
     (case getline infile of
        None \<Rightarrow> Inr ini
      | Some (line, rest) \<Rightarrow>
          (case process_line line cur ini of
             Inl e \<Rightarrow> Inl e
           | Inr (cur', ini') \<Rightarrow> inifile_loop rest cur' ini'))"
    by (rule inifile_loop.simps)
  have R: "lines_of infile =
     (case getline infile of None \<Rightarrow> [] | Some (line, rest) \<Rightarrow> line # lines_of rest)"
    by (rule lines_of.simps)
  show ?case
  proof (cases "getline infile")
    case None
    with L R show ?thesis by simp
  next
    case (Some p)
    obtain line rest where p: "p = (line, rest)" by (cases p)
    note g = Some [unfolded p]
    show ?thesis
    proof (cases "process_line line cur ini")
      case (Inl e)
      with L R g show ?thesis by simp
    next
      case (Inr q)
      obtain c i where q: "q = (c, i)" by (cases q)
      note pl = Inr [unfolded q]
      have "inifile_loop rest c i = run_lines (lines_of rest) c i"
        by (rule "1.IH" [OF g refl pl refl])
      with L R g pl show ?thesis by simp
    qed
  qed
qed

lemma find_str_char:
  "find_str s [c] = (case find_first_of s [c] of None \<Rightarrow> None | Some i \<Rightarrow> Some i)"
  by (induction s) (auto split: option.splits)

lemma find_first_of_None: "find_first_of s cs = None \<longleftrightarrow> (\<forall>c \<in> set s. c \<notin> set cs)"
  by (induction s) auto

lemma find_str_char_None: "find_str s [c] = None \<longleftrightarrow> c \<notin> set s"
  by (induction s) auto

lemma find_str_char_Some:
  "c \<in> set s \<Longrightarrow> find_str s [c] = Some (length (takeWhile (\<lambda>x. x \<noteq> c) s))"
  by (induction s) auto

lemma split_sep_char:
  "split_sep s [c] =
     (if c \<in> set s then Some (takeWhile (\<lambda>x. x \<noteq> c) s, drop 1 (dropWhile (\<lambda>x. x \<noteq> c) s))
      else None)"
proof (cases "c \<in> set s")
  case False
  then have "find_str s [c] = None" by (simp add: find_str_char_None)
  with False show ?thesis by (simp add: split_sep_def)
next
  case True
  have a: "take (length (takeWhile P s)) s = takeWhile P s" for P
    by (induction s) auto
  have c: "drop (Suc (length (takeWhile P s))) s = drop 1 (dropWhile P s)" for P
    by (induction s) auto
  have d: "length (dropWhile P s) = length s - length (takeWhile P s)" for P
    by (induction s) auto
  from True have "find_str s [c] = Some (length (takeWhile (\<lambda>x. x \<noteq> c) s))"
    by (rule find_str_char_Some)
  with True show ?thesis
    by (simp add: split_sep_def substr_def a c d)
qed

lemma substr_inner: "substr t 1 (length t - 2) = butlast (tl t)"
  by (simp add: substr_def butlast_conv_take drop_Suc numeral_2_eq_2)

lemma process_line_eq:
  "process_line l cur ini =
     (let t = strip_comment (trim l whitespace) in
      if t = [] then Inr (cur, ini)
      else if hd t = CHR ''['' then
        (if last t \<noteq> CHR '']'' then
           Inl (Syntax_error (''The section '' @ quote @ t @ quote
                              @ '' is missing a closing bracket.''))
         else Inr (Some (trim (butlast (tl t)) whitespace),
                   ini\<lparr>sections := subscript (sections ini) (trim (butlast (tl t)) whitespace)\<rparr>))
      else if CHR ''='' \<in> set t then
        Inr (cur, store_entry cur (trim (takeWhile (\<lambda>x. x \<noteq> CHR ''='') t) whitespace)
                    (trim (drop 1 (dropWhile (\<lambda>x. x \<noteq> CHR ''='') t)) whitespace) ini)
      else Inl (Syntax_error (''The line '' @ quote @ t @ quote @ '' is invalid.'')))"
proof (cases "strip_comment (trim l whitespace) = []")
  case True
  then show ?thesis by (simp add: process_line_def)
next
  case False
  then have h: "strip_comment (trim l whitespace) ! 0 = hd (strip_comment (trim l whitespace))"
    and e: "strip_comment (trim l whitespace) ! (length (strip_comment (trim l whitespace)) - 1)
            = last (strip_comment (trim l whitespace))"
    by (simp_all add: hd_conv_nth last_conv_nth)
  show ?thesis
    unfolding process_line_def Let_def h e substr_inner split_sep_char syntax_error_def
    using False by simp
qed

lemma process_line_malformed:
  "malformed l \<Longrightarrow> \<exists>msg. process_line l cur ini = Inl (Syntax_error msg)"
  by (auto simp: malformed_def process_line_eq Let_def)

lemma process_line_wellformed:
  "\<not> malformed l \<Longrightarrow> \<exists>c i. process_line l cur ini = Inr (c, i)"
  by (auto simp: malformed_def process_line_eq Let_def)

lemma process_line_error_state:
  "process_line l cur ini = Inl e \<Longrightarrow> process_line l cur' ini' = Inl e"
  by (auto simp: process_line_eq Let_def split: if_splits)


lemma run_lines_error_iff:
  "(\<exists>e. run_lines ls cur ini = Inl e) \<longleftrightarrow> (\<exists>l \<in> set ls. malformed l)"
proof (induction ls arbitrary: cur ini)
  case Nil
  show ?case by simp
next
  case (Cons l ls)
  show ?case
  proof (cases "malformed l")
    case True
    from process_line_malformed [OF True, of cur ini] True show ?thesis by auto
  next
    case False
    from process_line_wellformed [OF False, of cur ini]
    obtain c i where "process_line l cur ini = Inr (c, i)" by blast
    with False Cons.IH [of c i] show ?thesis by simp
  qed
qed

lemma run_lines_first_error:
  "run_lines ls cur ini = Inl e \<Longrightarrow>
     \<exists>pre l post. ls = pre @ l # post \<and> (\<forall>p \<in> set pre. \<not> malformed p) \<and> malformed l
        \<and> (\<forall>c i. process_line l c i = Inl e)"
proof (induction ls arbitrary: cur ini)
  case Nil
  then show ?case by simp
next
  case (Cons l ls)
  show ?case
  proof (cases "malformed l")
    case True
    from process_line_malformed [OF True, of cur ini]
    obtain msg where m: "process_line l cur ini = Inl (Syntax_error msg)" by blast
    with Cons.prems have "e = Syntax_error msg" by simp
    with m have "\<forall>c i. process_line l c i = Inl e" by (auto intro: process_line_error_state)
    with True have "l # ls = [] @ l # ls \<and> (\<forall>p \<in> set []. \<not> malformed p) \<and> malformed l
        \<and> (\<forall>c i. process_line l c i = Inl e)" by simp
    then show ?thesis by blast
  next
    case False
    from process_line_wellformed [OF False, of cur ini]
    obtain c i where ci: "process_line l cur ini = Inr (c, i)" by blast
    with Cons.prems have "run_lines ls c i = Inl e" by simp
    from Cons.IH [OF this] obtain pre l' post where
      h: "ls = pre @ l' # post" "\<forall>p \<in> set pre. \<not> malformed p" "malformed l'"
         "\<forall>c i. process_line l' c i = Inl e" by blast
    with False have "l # ls = (l # pre) @ l' # post \<and> (\<forall>p \<in> set (l # pre). \<not> malformed p)
        \<and> malformed l' \<and> (\<forall>c i. process_line l' c i = Inl e)" by simp
    then show ?thesis by blast
  qed
qed

lemma run_lines_error_kind:
  "run_lines ls cur ini = Inl e \<Longrightarrow> \<exists>msg. e = Syntax_error msg"
proof -
  assume "run_lines ls cur ini = Inl e"
  from run_lines_first_error [OF this] obtain l where
    "malformed l" "\<forall>c i. process_line l c i = Inl e" by blast
  with process_line_malformed [of l cur ini] show ?thesis by auto
qed

lemma lines_of_Nil: "lines_of [] = []"
  by (simp add: lines_of.simps [of "[]"] getline_def)

lemma lines_of_Cons:
  "lines_of (x # xs) =
     takeWhile (\<lambda>c. c \<noteq> CHR 0x0A) (x # xs) # lines_of (drop 1 (dropWhile (\<lambda>c. c \<noteq> CHR 0x0A) (x # xs)))"
  by (simp add: lines_of.simps [of "x # xs"] getline_def)

lemmas trim_eval = trim_def lstrip_dropWhile rstrip_rev_dropWhile whitespace_def
  strip_comment_takeWhile


lemma last_of_Nil: "last_of [] key = None"
  by (simp add: last_of_def)

lemma last_of_Cons:
  "last_of ((k, v) # kvs) key =
     (case last_of kvs key of
        Some w \<Rightarrow> Some w
      | None \<Rightarrow> if k = key then Some v else None)"
  by (auto simp: last_of_def split: list.splits)

lemma last_of_append: "last_of (xs @ ys) = last_of xs ++ last_of ys"
proof (induction xs)
  case Nil
  have "last_of [] = Map.empty" by (rule ext) (simp add: last_of_Nil)
  then show ?case by simp
next
  case (Cons x xs)
  obtain k v where x: "x = (k, v)" by (cases x)
  show ?case
  proof (rule ext)
    fix key
    from Cons.IH have "last_of (xs @ ys) key = (last_of xs ++ last_of ys) key" by simp
    then show "last_of ((x # xs) @ ys) key = (last_of (x # xs) ++ last_of ys) key"
      by (auto simp: x last_of_Cons map_add_def split: option.splits)
  qed
qed

lemma last_value_Nil: "last_value [] sec key = None"
  by (simp add: last_value_def entries_in_def last_of_Nil)

lemma last_value_Cons:
  "last_value ((s, k, v) # es) sec key =
     (case last_value es sec key of
        Some w \<Rightarrow> Some w
      | None \<Rightarrow> if s = sec \<and> k = key then Some v else None)"
  by (auto simp: last_value_def entries_in_def last_of_Cons split: option.splits)

lemma last_value_append: "last_value (xs @ ys) sec = last_value xs sec ++ last_value ys sec"
proof -
  have "last_value es sec = last_of (entries_in es sec)" for es
    by (rule ext) (simp add: last_value_def)
  then show ?thesis by (simp add: entries_in_def last_of_append)
qed

lemma process_line_classify:
  "\<not> malformed l \<Longrightarrow>
   process_line l cur ini =
     Inr (case classify l of
            None \<Rightarrow> (cur, ini)
          | Some (Header n) \<Rightarrow> (Some n, ini\<lparr>sections := subscript (sections ini) n\<rparr>)
          | Some (Entry k v) \<Rightarrow> (cur, store_entry cur k v ini))"
  by (auto simp: malformed_def process_line_eq classify_def Let_def)

lemma run_lines_store:
  "run_lines ls cur ini = Inr ini' \<Longrightarrow> cur_ok cur ini \<Longrightarrow>
     defaultsection ini' = defaultsection ini ++ last_value (entries_from cur ls) None
     \<and> (\<forall>s. sections ini' s =
           (if s \<in> set (declared ls) \<or> sections ini s \<noteq> None
            then Some (base_of ini s ++ last_value (entries_from cur ls) (Some s))
            else None))"
proof (induction ls arbitrary: cur ini)
  case Nil
  have "last_value [] sec = Map.empty" for sec by (rule ext) (simp add: last_value_Nil)
  with Nil show ?case by (auto simp: base_of_def)
next
  case (Cons l ls)
  have wf: "\<not> malformed l"
  proof
    assume "malformed l"
    from process_line_malformed [OF this, of cur ini] Cons.prems(1) show False by auto
  qed
  note pl = process_line_classify [OF wf, of cur ini]
  show ?case
  proof (cases "classify l")
    case None
    with pl Cons.prems have "run_lines ls cur ini = Inr ini'" by simp
    from Cons.IH [OF this Cons.prems(2)] None show ?thesis by simp
  next
    case (Some it)
    show ?thesis
    proof (cases it)
      case (Header n)
      let ?ini = "ini\<lparr>sections := subscript (sections ini) n\<rparr>"
      from pl Some Header Cons.prems have r: "run_lines ls (Some n) ?ini = Inr ini'" by simp
      have ok: "cur_ok (Some n) ?ini"
        by (simp add: cur_ok_def subscript_def split: option.splits)
      have dcl: "declared (l # ls) = n # declared ls" using Some Header by simp
      have ent: "entries_from cur (l # ls) = entries_from (Some n) ls" using Some Header by simp
      have sub: "(s \<in> set (declared ls) \<or> sections ?ini s \<noteq> None)
                 = (s \<in> set (declared (l # ls)) \<or> sections ini s \<noteq> None)" for s
        unfolding dcl by (auto simp: subscript_def split: option.splits)
      have base: "base_of ?ini s = base_of ini s" for s
        by (auto simp: base_of_def subscript_def split: option.splits)
      have dflt: "defaultsection ?ini = defaultsection ini" by simp
      from Cons.IH [OF r ok] show ?thesis
        unfolding sub base dflt ent .
    next
      case (Entry k v)
      let ?ini = "store_entry cur k v ini"
      from pl Some Entry Cons.prems have r: "run_lines ls cur ?ini = Inr ini'" by simp
      have ok: "cur_ok cur ?ini"
        using Cons.prems(2) by (auto simp: cur_ok_def store_entry_def split: option.splits)
      have lv: "last_value ((cur, k, v) # es) sec =
                  (if cur = sec then [k \<mapsto> v] else Map.empty) ++ last_value es sec" for es sec
        by (rule ext) (auto simp: last_value_Cons map_add_def split: option.splits)
      have d: "defaultsection ?ini = defaultsection ini ++ (if cur = None then [k \<mapsto> v] else Map.empty)"
        by (auto simp: store_entry_def split: option.splits)
      have ent: "entries_from cur (l # ls) = (cur, k, v) # entries_from cur ls"
        using Some Entry by simp
      have dcl: "declared (l # ls) = declared ls" using Some Entry by simp
      have sub: "(sections ?ini s \<noteq> None) = (sections ini s \<noteq> None)" for s
        using Cons.prems(2) by (auto simp: cur_ok_def store_entry_def split: option.splits)
      have base: "base_of ?ini s = base_of ini s ++ (if cur = Some s then [k \<mapsto> v] else Map.empty)" for s
        by (auto simp: base_of_def store_entry_def split: option.splits)
      from Cons.IH [OF r ok] show ?thesis
        unfolding sub base d ent dcl lv by (simp add: map_add_assoc)
    qed
  qed
qed

lemma process_line_cursec:
  "cur_ok cur ini \<Longrightarrow> process_line l cur ini = Inr (cur', ini') \<Longrightarrow> cur_ok cur' ini'"
  by (auto simp: process_line_eq Let_def cur_ok_def subscript_def store_entry_def
      split: if_splits option.splits)

lemma ctor_store:
  assumes "inifile_ctor doc = Inr ini"
  shows "defaultsection ini = last_value (entries_from None (lines_of doc)) None"
    and "sections ini s =
           (if s \<in> set (declared (lines_of doc))
            then Some (last_value (entries_from None (lines_of doc)) (Some s))
            else None)"
proof -
  let ?i = "\<lparr>sections = Map.empty, defaultsection = Map.empty\<rparr>"
  from assms have r: "run_lines (lines_of doc) None ?i = Inr ini"
    by (simp add: inifile_ctor_def inifile_loop_lines)
  have ok: "cur_ok None ?i" by (simp add: cur_ok_def)
  note st = run_lines_store [OF r ok]
  from st show "defaultsection ini = last_value (entries_from None (lines_of doc)) None"
    by simp
  from st have "sections ini s =
           (if s \<in> set (declared (lines_of doc)) \<or> sections ?i s \<noteq> None
            then Some (base_of ?i s ++ last_value (entries_from None (lines_of doc)) (Some s))
            else None)" by blast
  then show "sections ini s =
           (if s \<in> set (declared (lines_of doc))
            then Some (last_value (entries_from None (lines_of doc)) (Some s))
            else None)"
    by (simp add: base_of_def)
qed

lemma ctor_returns:
  "\<forall>l \<in> set (lines_of doc). \<not> malformed l \<Longrightarrow> \<exists>ini. inifile_ctor doc = Inr ini"
proof -
  assume a: "\<forall>l \<in> set (lines_of doc). \<not> malformed l"
  let ?i = "\<lparr>sections = Map.empty, defaultsection = Map.empty\<rparr>"
  have eq: "inifile_ctor doc = run_lines (lines_of doc) None ?i"
    by (simp add: inifile_ctor_def inifile_loop_lines)
  from a run_lines_error_iff [of "lines_of doc" None ?i]
  have "\<not> (\<exists>e. run_lines (lines_of doc) None ?i = Inl e)" by blast
  then show ?thesis unfolding eq by (cases "run_lines (lines_of doc) None ?i") auto
qed

lemma header_reuse:
  "\<not> malformed l \<Longrightarrow> classify l = Some (Header n) \<Longrightarrow> sections st n \<noteq> None \<Longrightarrow>
     process_line l cur st = Inr (Some n, st)"
  by (auto simp: process_line_classify subscript_def)

lemmas line_eval = malformed_def classify_def trim_eval

lemma last_of_mem: "last_of kvs key = Some v \<Longrightarrow> (key, v) \<in> set kvs"
  by (induction kvs) (auto simp: last_of_Nil last_of_Cons split: option.splits if_splits)

lemma last_of_None: "last_of kvs key = None \<longleftrightarrow> (\<forall>v. (key, v) \<notin> set kvs)"
  by (induction kvs) (auto simp: last_of_Nil last_of_Cons split: option.splits if_splits)

lemma last_value_mem: "last_value es sec key = Some v \<Longrightarrow> (sec, key, v) \<in> set es"
  by (induction es) (auto simp: last_value_Nil last_value_Cons split: option.splits if_splits)

lemma last_value_None: "last_value es sec key = None \<longleftrightarrow> (\<forall>v. (sec, key, v) \<notin> set es)"
  by (induction es) (auto simp: last_value_Nil last_value_Cons split: option.splits if_splits)

lemma trim_dropWhile:
  "trim s cs = rev (dropWhile (\<lambda>c. c \<in> set cs) (rev (dropWhile (\<lambda>c. c \<in> set cs) s)))"
  by (simp add: trim_def lstrip_dropWhile rstrip_rev_dropWhile)

lemma set_trim: "set (trim s cs) \<subseteq> set s"
proof -
  have "set (dropWhile P xs) \<subseteq> set xs" for P and xs :: string
    by (auto dest: set_dropWhileD)
  then show ?thesis unfolding trim_dropWhile set_rev
    by (metis set_rev subset_trans)
qed

lemma trim_ends:
  "trim s cs \<noteq> [] \<Longrightarrow> hd (trim s cs) \<notin> set cs \<and> last (trim s cs) \<notin> set cs"
proof -
  let ?P = "\<lambda>c. c \<in> set cs"
  let ?a = "dropWhile ?P s"
  let ?b = "dropWhile ?P (rev ?a)"
  assume "trim s cs \<noteq> []"
  then have b: "?b \<noteq> []" by (simp add: trim_dropWhile)
  then have hb: "\<not> ?P (hd ?b)" by (rule hd_dropWhile)
  have a: "?a \<noteq> []"
  proof
    assume "?a = []"
    with b show False by simp
  qed
  then have ha: "\<not> ?P (hd ?a)" by (rule hd_dropWhile)
  have "last (dropWhile ?P xs) = last xs" if "dropWhile ?P xs \<noteq> []" for xs
    using that by (induction xs) (auto split: if_splits)
  from this [OF b] a have "last ?b = hd ?a" by (simp add: last_rev)
  with ha hb b show ?thesis by (simp add: trim_dropWhile last_rev hd_rev)
qed

lemma trim_fixed:
  "s = [] \<or> (hd s \<notin> set cs \<and> last s \<notin> set cs) \<Longrightarrow> trim s cs = s"
proof (cases s)
  case Nil
  then show ?thesis by (simp add: trim_dropWhile)
next
  case (Cons x xs)
  assume "s = [] \<or> (hd s \<notin> set cs \<and> last s \<notin> set cs)"
  with Cons have h: "x \<notin> set cs" and l: "last (x # xs) \<notin> set cs" by auto
  from h have a: "dropWhile (\<lambda>c. c \<in> set cs) (x # xs) = x # xs" by simp
  have "rev (x # xs) = last (x # xs) # rev (butlast (x # xs))"
    by (metis append_butlast_last_id list.distinct(1) rev.simps(2) rev_append rev_rev_ident
        append_Cons append_Nil rev_singleton_conv)
  with l have "dropWhile (\<lambda>c. c \<in> set cs) (rev (x # xs)) = rev (x # xs)" by simp
  with a Cons show ?thesis by (simp add: trim_dropWhile)
qed

lemma trim_idem: "trim (trim s cs) cs = trim s cs"
  using trim_ends [of s cs] by (intro trim_fixed) blast

lemma strip_comment_marks:
  "CHR ''#'' \<notin> set (strip_comment s) \<and> CHR '';'' \<notin> set (strip_comment s)"
  unfolding strip_comment_takeWhile by (auto dest: set_takeWhileD)

lemma strip_comment_fixed:
  "CHR ''#'' \<notin> set s \<Longrightarrow> CHR '';'' \<notin> set s \<Longrightarrow> strip_comment s = s"
  unfolding strip_comment_takeWhile by (induction s) auto

lemma clean_trim_part:
  "set p \<subseteq> set (strip_comment s) \<Longrightarrow> clean (trim p whitespace)"
proof -
  assume a: "set p \<subseteq> set (strip_comment s)"
  with set_trim [of p whitespace] strip_comment_marks [of s]
  have "CHR ''#'' \<notin> set (trim p whitespace)" "CHR '';'' \<notin> set (trim p whitespace)" by auto
  then have "strip_comment (trim p whitespace) = trim p whitespace" by (rule strip_comment_fixed)
  then show ?thesis by (simp add: clean_def trim_idem)
qed

lemma classify_clean:
  "classify l = Some (Entry k v) \<Longrightarrow> clean k \<and> clean v"
proof -
  assume a: "classify l = Some (Entry k v)"
  let ?t = "strip_comment (trim l whitespace)"
  from a have k: "k = trim (takeWhile (\<lambda>c. c \<noteq> CHR ''='') ?t) whitespace"
    and v: "v = trim (drop 1 (dropWhile (\<lambda>c. c \<noteq> CHR ''='') ?t)) whitespace"
    by (auto simp: classify_def Let_def split: if_splits)
  have "set (takeWhile (\<lambda>c. c \<noteq> CHR ''='') ?t) \<subseteq> set ?t" by (auto dest: set_takeWhileD)
  then have ck: "clean k" unfolding k by (rule clean_trim_part)
  have "set (drop 1 (dropWhile (\<lambda>c. c \<noteq> CHR ''='') ?t)) \<subseteq> set ?t"
    by (auto dest: in_set_dropD set_dropWhileD)
  then have "clean v" unfolding v by (rule clean_trim_part)
  with ck show ?thesis by simp
qed

lemma entries_from_clean:
  "(c, k, v) \<in> set (entries_from cur ls) \<Longrightarrow> clean k \<and> clean v"
proof (induction ls arbitrary: cur)
  case Nil
  then show ?case by simp
next
  case (Cons l ls)
  show ?case
  proof (cases "classify l")
    case None
    with Cons show ?thesis by simp
  next
    case (Some it)
    show ?thesis
    proof (cases it)
      case (Header n)
      with Some Cons show ?thesis by simp
    next
      case (Entry k' v')
      with Some Cons.prems have "(c, k, v) = (cur, k', v') \<or> (c, k, v) \<in> set (entries_from cur ls)"
        by simp
      then show ?thesis
      proof
        assume "(c, k, v) = (cur, k', v')"
        with classify_clean [of l k' v'] Some Entry show ?thesis by simp
      next
        assume "(c, k, v) \<in> set (entries_from cur ls)"
        then show ?thesis by (rule Cons.IH)
      qed
    qed
  qed
qed

lemma ctor_get:
  assumes "inifile_ctor doc = Inr ini"
  shows "inifile_get ini s k =
           (if s \<notin> set (declared (lines_of doc)) then Inl (unknown_section_error s)
            else case last_value (entries_from None (lines_of doc)) (Some s) k of
                   None \<Rightarrow> Inl (unknown_entry_error_in s k)
                 | Some v \<Rightarrow> Inr v)"
  by (simp add: inifile_get_def ctor_store(2) [OF assms])

lemma ctor_get1:
  assumes "inifile_ctor doc = Inr ini"
  shows "inifile_get1 ini k =
           (case last_value (entries_from None (lines_of doc)) None k of
              None \<Rightarrow> Inl (unknown_entry_error k)
            | Some v \<Rightarrow> Inr v)"
  by (simp add: inifile_get1_def ctor_store(1) [OF assms])

lemma ctor_values_clean:
  assumes "inifile_ctor doc = Inr ini"
  shows "inifile_get ini s k = Inr v \<Longrightarrow> clean v"
    and "inifile_get1 ini k = Inr v \<Longrightarrow> clean v"
proof -
  assume "inifile_get ini s k = Inr v"
  then have "last_value (entries_from None (lines_of doc)) (Some s) k = Some v"
    unfolding ctor_get [OF assms] by (auto split: if_splits option.splits)
  from entries_from_clean [OF last_value_mem [OF this]] show "clean v" by simp
next
  assume "inifile_get1 ini k = Inr v"
  then have "last_value (entries_from None (lines_of doc)) None k = Some v"
    unfolding ctor_get1 [OF assms] by (auto split: option.splits)
  from entries_from_clean [OF last_value_mem [OF this]] show "clean v" by simp
qed

lemma lstrip_keep: "x \<notin> set cs \<Longrightarrow> lstrip (x # xs) cs = x # xs"
  by (simp add: lstrip_dropWhile)

lemma rstrip_keep_last: "x \<notin> set cs \<Longrightarrow> rstrip (xs @ [x]) cs = xs @ [x]"
  using rstrip_append_keep [of x cs xs "[]"] by (simp add: rstrip_Nil)

lemma strip_comment_cut:
  assumes "CHR ''#'' \<notin> set a" "CHR '';'' \<notin> set a" "m = CHR ''#'' \<or> m = CHR '';''"
  shows "strip_comment (a @ m # r) = a"
proof -
  let ?P = "\<lambda>c. c \<noteq> CHR ''#'' \<and> c \<noteq> CHR '';''"
  from assms(3) have "\<not> ?P m" by auto
  then have "takeWhile ?P (a @ m # r) = takeWhile ?P a" by (rule takeWhile_tail)
  moreover from assms(1,2) have "takeWhile ?P a = a" by (auto simp: takeWhile_eq_all_conv)
  ultimately show ?thesis by (simp add: strip_comment_takeWhile)
qed

lemma whitespace_no_marks:
  "set ws \<subseteq> set whitespace \<Longrightarrow> CHR ''#'' \<notin> set ws \<and> CHR '';'' \<notin> set ws
     \<and> CHR '']'' \<notin> set ws"
  by (auto simp: whitespace_def)

lemma header_comment_cleaned:
  assumes ws: "set ws \<subseteq> set whitespace"
    and nm: "CHR ''#'' \<notin> set name" "CHR '';'' \<notin> set name"
    and m: "m = CHR ''#'' \<or> m = CHR '';''"
  shows "strip_comment (trim (''['' @ name @ '']'' @ ws @ m # rest) whitespace)
         = ''['' @ name @ '']'' @ ws"
proof -
  have mw: "m \<notin> set whitespace" using m by (auto simp: whitespace_def)
  have bw: "CHR ''['' \<notin> set whitespace" by (simp add: whitespace_def)
  have "trim (''['' @ name @ '']'' @ ws @ m # rest) whitespace
        = rstrip ((''['' @ name @ '']'' @ ws) @ m # rest) whitespace"
    using lstrip_keep [OF bw] by (simp add: trim_def)
  also have "\<dots> = (''['' @ name @ '']'' @ ws) @ m # rstrip rest whitespace"
    using mw by (rule rstrip_append_keep)
  finally have t: "trim (''['' @ name @ '']'' @ ws @ m # rest) whitespace
        = (''['' @ name @ '']'' @ ws) @ m # rstrip rest whitespace" .
  from whitespace_no_marks [OF ws] nm
  have "CHR ''#'' \<notin> set (''['' @ name @ '']'' @ ws)" "CHR '';'' \<notin> set (''['' @ name @ '']'' @ ws)"
    by auto
  from strip_comment_cut [OF this m] show ?thesis unfolding t .
qed

lemma header_plain_cleaned:
  assumes nm: "CHR ''#'' \<notin> set name" "CHR '';'' \<notin> set name"
  shows "strip_comment (trim (''['' @ name @ '']'') whitespace) = ''['' @ name @ '']''"
proof -
  have bw: "CHR ''['' \<notin> set whitespace" "CHR '']'' \<notin> set whitespace"
    by (simp_all add: whitespace_def)
  have "trim (''['' @ name @ '']'') whitespace = rstrip ((''['' @ name) @ '']'') whitespace"
    using lstrip_keep [OF bw(1)] by (simp add: trim_def)
  also have "\<dots> = (''['' @ name) @ '']''"
    using bw(2) by (rule rstrip_keep_last)
  finally have t: "trim (''['' @ name @ '']'') whitespace = ''['' @ name @ '']''" by simp
  from nm have "strip_comment (''['' @ name @ '']'') = ''['' @ name @ '']''"
    by (intro strip_comment_fixed) auto
  with t show ?thesis by simp
qed

lemma ctor_fails:
  "l \<in> set (lines_of doc) \<Longrightarrow> malformed l \<Longrightarrow> \<exists>msg. inifile_ctor doc = Inl (Syntax_error msg)"
proof -
  assume a: "l \<in> set (lines_of doc)" "malformed l"
  let ?i = "\<lparr>sections = Map.empty, defaultsection = Map.empty\<rparr>"
  have eq: "inifile_ctor doc = run_lines (lines_of doc) None ?i"
    by (simp add: inifile_ctor_def inifile_loop_lines)
  from a run_lines_error_iff [of "lines_of doc" None ?i]
  obtain e where e: "run_lines (lines_of doc) None ?i = Inl e" by blast
  from run_lines_error_kind [OF e] e show ?thesis unfolding eq by auto
qed

lemma entries_from_no_header:
  "\<forall>l \<in> set a. \<not> is_header l \<Longrightarrow>
     entries_from cur (a @ b) = map (Pair cur) (plain_entries a) @ entries_from cur b"
proof (induction a)
  case Nil
  show ?case by simp
next
  case (Cons l a)
  then have ih: "entries_from cur (a @ b)
      = map (Pair cur) (plain_entries a) @ entries_from cur b" by simp
  from Cons.prems have nh: "\<not> is_header l" by simp
  show ?case
  proof (cases "classify l")
    case None
    with ih show ?thesis by simp
  next
    case (Some it)
    with nh obtain k v where "it = Entry k v" by (cases it) (auto simp: is_header_def)
    with Some ih show ?thesis by simp
  qed
qed

lemma entries_from_header:
  "classify h = Some (Header n) \<Longrightarrow>
     \<exists>xs. entries_from cur (pre @ h # rest) = xs @ entries_from (Some n) rest"
proof (induction pre arbitrary: cur)
  case Nil
  then have "entries_from cur ([] @ h # rest) = [] @ entries_from (Some n) rest" by simp
  then show ?case by blast
next
  case (Cons l pre)
  show ?case
  proof (cases "classify l")
    case None
    with Cons.IH [OF Cons.prems, of cur] show ?thesis by simp
  next
    case (Some it)
    show ?thesis
    proof (cases it)
      case (Header n')
      with Some Cons.IH [OF Cons.prems, of "Some n'"] show ?thesis by simp
    next
      case (Entry k v)
      from Cons.IH [OF Cons.prems, of cur] obtain xs where
        "entries_from cur (pre @ h # rest) = xs @ entries_from (Some n) rest" by blast
      with Some Entry have "entries_from cur ((l # pre) @ h # rest)
          = ((cur, k, v) # xs) @ entries_from (Some n) rest" by simp
      then show ?thesis by blast
    qed
  qed
qed

lemma entries_from_Some_tag:
  "(c, k, v) \<in> set (entries_from (Some n) ls) \<Longrightarrow> c \<noteq> None"
proof (induction ls arbitrary: n)
  case Nil
  then show ?case by simp
next
  case (Cons l ls)
  show ?case
  proof (cases "classify l")
    case None
    with Cons show ?thesis by simp
  next
    case (Some it)
    with Cons show ?thesis by (cases it) auto
  qed
qed

lemma declared_append: "declared (a @ b) = declared a @ declared b"
proof (induction a)
  case Nil
  show ?case by simp
next
  case (Cons l a)
  then show ?case
    apply (cases "classify l")
     apply simp
    subgoal for it by (cases it) simp_all
    done
qed

lemma last_value_tagged:
  "last_value (map (Pair c) kvs) c = last_of kvs"
proof -
  have "entries_in (map (Pair c) kvs) c = kvs"
    by (induction kvs) (auto simp: entries_in_def)
  then show ?thesis by (intro ext) (simp add: last_value_def)
qed

lemma last_value_empty:
  "\<forall>k v. (sec, k, v) \<notin> set es \<Longrightarrow> last_value es sec = Map.empty"
  by (intro ext) (simp add: last_value_None)

lemma default_section_prefix:
  "last_value (entries_from None ls) None
     = last_of (plain_entries (takeWhile (\<lambda>l. \<not> is_header l) ls))"
proof -
  let ?pre = "takeWhile (\<lambda>l. \<not> is_header l) ls"
  let ?post = "dropWhile (\<lambda>l. \<not> is_header l) ls"
  have nh: "\<forall>l \<in> set ?pre. \<not> is_header l" by (auto dest: set_takeWhileD)
  have split: "entries_from None ls
      = map (Pair None) (plain_entries ?pre) @ entries_from None ?post"
    using entries_from_no_header [OF nh, of None ?post] by simp
  have "last_value (entries_from None ?post) None = Map.empty"
  proof (cases ?post)
    case Nil
    have "last_value [] None = Map.empty" by (intro ext) (simp add: last_value_Nil)
    then show ?thesis unfolding Nil by simp
  next
    case (Cons h rest)
    then have "is_header h" using hd_dropWhile [of "\<lambda>l. \<not> is_header l" ls] by auto
    then obtain n where "classify h = Some (Header n)"
      by (auto simp: is_header_def split: option.splits item.splits)
    with Cons have "entries_from None ?post = entries_from (Some n) rest" by simp
    moreover have "\<forall>k v. (None, k, v) \<notin> set (entries_from (Some n) rest)"
      using entries_from_Some_tag by blast
    ultimately show ?thesis by (simp add: last_value_empty)
  qed
  then show ?thesis unfolding split by (simp add: last_value_append last_value_tagged)
qed

lemma after_header_section:
  assumes h: "classify h = Some (Header n)"
    and seg: "\<forall>l \<in> set seg. \<not> is_header l"
    and v: "last_of (plain_entries seg) key = Some v"
    and post: "\<forall>w. (Some n, key, w) \<notin> set (entries_from (Some n) post)"
  shows "last_value (entries_from None (pre @ h # seg @ post)) (Some n) key = Some v"
proof -
  from entries_from_header [OF h, of None pre "seg @ post"] obtain xs where
    "entries_from None (pre @ h # seg @ post) = xs @ entries_from (Some n) (seg @ post)" by blast
  with entries_from_no_header [OF seg, of "Some n" post]
  have e: "entries_from None (pre @ h # seg @ post)
      = xs @ map (Pair (Some n)) (plain_entries seg) @ entries_from (Some n) post"
    by simp
  from post have "last_value (entries_from (Some n) post) (Some n) key = None"
    by (simp add: last_value_None)
  with v show ?thesis
    unfolding e by (simp add: last_value_append last_value_tagged map_add_def)
qed

lemma extract_char_None: "extract_char rest = None \<longleftrightarrow> (\<forall>c \<in> set rest. isspace c)"
proof -
  have b: "((case xs of [] \<Rightarrow> None | c # r \<Rightarrow> Some (c, r)) = None) = (xs = [])"
    for xs :: string
    by (cases xs) simp_all
  have a: "extract_char rest = None \<longleftrightarrow> dropWhile isspace rest = []"
    unfolding extract_char_def skipws_def by (rule b)
  show ?thesis unfolding a by (simp add: dropWhile_eq_Nil_conv)
qed

lemma isspace_whitespace: "isspace c \<longleftrightarrow> c \<in> set whitespace"
  by (auto simp: isspace_def whitespace_def)

lemma clean_no_trailing_space:
  assumes "clean src" "src = pre @ rest" "\<forall>c \<in> set rest. isspace c"
  shows "rest = []"
proof (rule ccontr)
  assume ne: "rest \<noteq> []"
  with assms(2) have "src \<noteq> []" "last src = last rest" by simp_all
  moreover from assms(1) have t: "trim src whitespace = src" by (simp add: clean_def)
  ultimately have "last rest \<notin> set whitespace" using trim_ends [of src whitespace] by simp
  moreover from ne assms(3) have "isspace (last rest)" by simp
  ultimately show False by (simp add: isspace_whitespace)
qed

lemma getval_Inl:
  "inifile_get ini sec key = Inl e \<Longrightarrow> inifile_getval extr ini sec key def = def"
  by (simp add: inifile_getval_def)

lemma getval_None:
  "inifile_get ini sec key = Inr src \<Longrightarrow> extr src = None \<Longrightarrow>
     inifile_getval extr ini sec key def = def"
  by (simp add: inifile_getval_def)

lemma getval_Some:
  "inifile_get ini sec key = Inr src \<Longrightarrow> extr src = Some (rv, rest) \<Longrightarrow>
     inifile_getval extr ini sec key def = (if \<forall>c \<in> set rest. isspace c then rv else def)"
proof (cases "\<forall>c \<in> set rest. isspace c")
  case True
  assume a: "inifile_get ini sec key = Inr src" "extr src = Some (rv, rest)"
  from True have "extract_char rest = None" by (simp add: extract_char_None)
  with a have r: "inifile_getval extr ini sec key def = rv" by (simp add: inifile_getval_def)
  from True have "(if \<forall>c \<in> set rest. isspace c then rv else def) = rv" by (rule if_P)
  with r show ?thesis by (simp only:)
next
  case False
  assume a: "inifile_get ini sec key = Inr src" "extr src = Some (rv, rest)"
  from False have "extract_char rest \<noteq> None" by (simp add: extract_char_None)
  then obtain c where "extract_char rest = Some c" by blast
  with a have r: "inifile_getval extr ini sec key def = def" by (simp add: inifile_getval_def)
  from False have "(if \<forall>c \<in> set rest. isspace c then rv else def) = def" by (rule if_not_P)
  with r show ?thesis by (simp only:)
qed

lemma getval_parsed:
  assumes "inifile_ctor doc = Inr ini" "inifile_get ini sec key = Inr src"
    "extr src = Some (rv, rest)" "src = pre @ rest"
  shows "inifile_getval extr ini sec key def = (if rest = [] then rv else def)"
proof -
  from ctor_values_clean(1) [OF assms(1,2)] have c: "clean src" .
  have "(\<forall>c \<in> set rest. isspace c) \<longleftrightarrow> rest = []"
    using clean_no_trailing_space [OF c assms(4)] by auto
  with getval_Some [where extr = extr and src = src and def = def, OF assms(2,3)]
  show ?thesis by simp
qed

lemma section_getval:
  "inifile_section ini sec = Inr h \<Longrightarrow>
     inisection_getval extr h key def = inifile_getval extr ini sec key def"
  by (auto simp: inifile_section_def inisection_getval_def inifile_getval_def inisection_get_def
      split: option.splits)

lemma extract_int_42: "extract_int ''42'' = Some (42, [])"
  by (simp add: extract_int_def skipws_def isspace_def isdigit_def decimal_def digit_val_def)

lemma extract_bool_notabool: "extract_bool ''notabool'' = None"
  by (simp add: extract_bool_def skipws_def isspace_def)


lemma extract_bool_true: "extract_bool ''true'' = Some (True, [])"
  by (simp add: extract_bool_def skipws_def isspace_def)

lemma extract_bool_false: "extract_bool ''false'' = Some (False, [])"
  by (simp add: extract_bool_def skipws_def isspace_def)

lemma starts_with_same_length:
  "length p = length s \<Longrightarrow> starts_with p s \<longleftrightarrow> s = p"
  by (induction p s rule: starts_with.induct) auto

lemma starts_with_hd:
  "starts_with (p # ps) s \<Longrightarrow> s \<noteq> [] \<and> hd s = p"
  by (cases s) auto

lemma case_variant_length: "case_variant s w \<Longrightarrow> length s = length w"
  by (simp add: case_variant_def list_all2_lengthD)

lemma case_variant_hd:
  "case_variant s (y # w) \<Longrightarrow> s \<noteq> [] \<and> (hd s = y \<or> hd s = to_upper y)"
  by (cases s) (auto simp: case_variant_def)

lemma to_upper_t: "to_upper CHR ''t'' = CHR ''T''"
  by (simp add: to_upper_def)

lemma to_upper_f: "to_upper CHR ''f'' = CHR ''F''"
  by (simp add: to_upper_def)

lemma skipws_keep: "s \<noteq> [] \<Longrightarrow> \<not> isspace (hd s) \<Longrightarrow> skipws s = s"
  by (cases s) (simp_all add: skipws_def)

lemma extract_bool_variant:
  assumes "case_variant s ''true'' \<or> case_variant s ''false''" "s \<noteq> ''true''" "s \<noteq> ''false''"
  shows "extract_bool s = None"
  using assms(1)
proof
  assume v: "case_variant s ''true''"
  from case_variant_length [OF v] have len: "length s = 4" by simp
  from case_variant_hd [OF v] have ne: "s \<noteq> []" and h: "hd s = CHR ''t'' \<or> hd s = CHR ''T''"
    by (simp_all add: to_upper_t)
  from h have "\<not> isspace (hd s)" by (auto simp: isspace_def)
  with ne have sk: "skipws s = s" by (rule skipws_keep)
  from len have "starts_with ''true'' s \<longleftrightarrow> s = ''true''"
    by (intro starts_with_same_length) simp
  with assms(2) have nt: "\<not> starts_with ''true'' s" by simp
  have nf: "\<not> starts_with ''false'' s"
  proof
    assume "starts_with ''false'' s"
    from starts_with_length [OF this] len show False by simp
  qed
  from sk nt nf show ?thesis by (simp add: extract_bool_def)
next
  assume v: "case_variant s ''false''"
  from case_variant_length [OF v] have len: "length s = 5" by simp
  from case_variant_hd [OF v] have ne: "s \<noteq> []" and h: "hd s = CHR ''f'' \<or> hd s = CHR ''F''"
    by (simp_all add: to_upper_f)
  from h have "\<not> isspace (hd s)" by (auto simp: isspace_def)
  with ne have sk: "skipws s = s" by (rule skipws_keep)
  from len have "starts_with ''false'' s \<longleftrightarrow> s = ''false''"
    by (intro starts_with_same_length) simp
  with assms(3) have nf: "\<not> starts_with ''false'' s" by simp
  have nt: "\<not> starts_with ''true'' s"
  proof
    assume "starts_with ''true'' s"
    from starts_with_hd [OF this] h show False by auto
  qed
  from sk nt nf show ?thesis by (simp add: extract_bool_def)
qed

section \<open>Claims\<close>

text \<open>
  C8. For every string \<open>s\<close>, the default comment stripping is two truncation passes
  composed left to right: \<open>s\<close> is truncated at its first \<open>#\<close> (if any) and the result at
  its first \<open>;\<close> (if any). This equals the shorter of the two independent truncations
  of \<open>s\<close>; in particular \<open>"abc ; def # ghi"\<close> becomes \<open>"abc "\<close>.
\<close>

theorem strip_comment_two_pass:
  "strip_comment s = truncate_at CHR '';'' (truncate_at CHR ''#'' s)
   \<and> strip_comment s = shorter_of (truncate_at CHR ''#'' s) (truncate_at CHR '';'' s)
   \<and> strip_comment ''abc ; def # ghi'' = ''abc ''"
proof -
  have a: "strip_comment t = truncate_at CHR '';'' (truncate_at CHR ''#'' t)" for t
    by (simp add: strip_comment_def strip_comment_mark_takeWhile truncate_at_def)
  have b: "truncate_at CHR '';'' (truncate_at CHR ''#'' t)
           = shorter_of (truncate_at CHR ''#'' t) (truncate_at CHR '';'' t)" for t
    by (induction t) (auto simp: truncate_at_def shorter_of_def)
  have c: "strip_comment ''abc ; def # ghi'' = ''abc ''"
    by (simp add: strip_comment_takeWhile)
  from a b c show ?thesis by simp
qed

text \<open>
  C1. For every input document, the constructor fails with a syntax error if and only
  if some line of the document is malformed (after trimming and comment stripping it
  is not empty, and it begins with \<open>[\<close> without ending with \<open>]\<close>, or it does not begin
  with \<open>[\<close> and holds no \<open>=\<close>). It returns a store exactly when no line is malformed,
  and when it fails, the exception is a syntax error, namely the one that the loop body
  throws at the first malformed line: no store is returned.
\<close>

theorem ctor_syntax_error:
  "((\<exists>msg. inifile_ctor doc = Inl (Syntax_error msg)) \<longleftrightarrow> (\<exists>l \<in> set (lines_of doc). malformed l))
   \<and> ((\<exists>ini. inifile_ctor doc = Inr ini) \<longleftrightarrow> (\<forall>l \<in> set (lines_of doc). \<not> malformed l))
   \<and> (\<forall>e. inifile_ctor doc = Inl e \<longrightarrow>
         (\<exists>msg. e = Syntax_error msg) \<and>
         (\<exists>pre l post. lines_of doc = pre @ l # post \<and> (\<forall>p \<in> set pre. \<not> malformed p)
             \<and> malformed l \<and> (\<forall>cur ini. process_line l cur ini = Inl e)))"
proof -
  let ?i = "\<lparr>sections = Map.empty, defaultsection = Map.empty\<rparr>"
  have eq: "inifile_ctor doc = run_lines (lines_of doc) None ?i"
    by (simp add: inifile_ctor_def inifile_loop_lines)
  have iff: "(\<exists>e. inifile_ctor doc = Inl e) \<longleftrightarrow> (\<exists>l \<in> set (lines_of doc). malformed l)"
    unfolding eq by (rule run_lines_error_iff)
  have kind: "\<exists>msg. e = Syntax_error msg" if "inifile_ctor doc = Inl e" for e
    using that unfolding eq by (rule run_lines_error_kind)
  have first: "\<exists>pre l post. lines_of doc = pre @ l # post \<and> (\<forall>p \<in> set pre. \<not> malformed p)
             \<and> malformed l \<and> (\<forall>cur ini. process_line l cur ini = Inl e)"
    if "inifile_ctor doc = Inl e" for e
    using that unfolding eq by (rule run_lines_first_error)
  have a: "(\<exists>msg. inifile_ctor doc = Inl (Syntax_error msg)) \<longleftrightarrow> (\<exists>l \<in> set (lines_of doc). malformed l)"
    using iff kind by metis
  have b: "(\<exists>ini. inifile_ctor doc = Inr ini) \<longleftrightarrow> (\<forall>l \<in> set (lines_of doc). \<not> malformed l)"
  proof (cases "inifile_ctor doc")
    case (Inl e)
    with iff show ?thesis by auto
  next
    case (Inr i)
    with iff show ?thesis by auto
  qed
  from a b kind first show ?thesis by blast
qed

theorem ctor_syntax_error_witness:
  "lines_of ''k=1\<newline>[section\<newline>junk'' = [''k=1'', ''[section'', ''junk'']
   \<and> \<not> malformed ''k=1'' \<and> malformed ''[section''
   \<and> (\<exists>msg. inifile_ctor ''k=1\<newline>[section\<newline>junk'' = Inl (Syntax_error msg))"
proof -
  have l: "lines_of ''k=1\<newline>[section\<newline>junk'' = [''k=1'', ''[section'', ''junk'']"
    by (simp add: lines_of_Nil lines_of_Cons)
  have m1: "\<not> malformed ''k=1''" by (simp add: malformed_def trim_eval)
  have m2: "malformed ''[section''" by (simp add: malformed_def trim_eval)
  from m2 l have "\<exists>l \<in> set (lines_of ''k=1\<newline>[section\<newline>junk''). malformed l" by simp
  with ctor_syntax_error [of "''k=1\<newline>[section\<newline>junk''"]
  have "\<exists>msg. inifile_ctor ''k=1\<newline>[section\<newline>junk'' = Inl (Syntax_error msg)" by blast
  with l m1 m2 show ?thesis by blast
qed

text \<open>
  C2. For every successfully parsed document, each section name maps to one map, which
  exists exactly for the names that some header declares, and each (section, key) pair
  maps to the value of the last entry with that key written under a header of that
  name (the default section likewise, for the entries before any header). A header
  whose name is already in the store leaves the store as it is: the existing map is
  reused.
\<close>

theorem last_write_wins:
  "inifile_ctor doc = Inr ini \<Longrightarrow>
     defaultsection ini = last_value (entries_from None (lines_of doc)) None
     \<and> (\<forall>sect. sections ini sect =
           (if sect \<in> set (declared (lines_of doc))
            then Some (last_value (entries_from None (lines_of doc)) (Some sect))
            else None))
     \<and> (\<forall>l n cur st. \<not> malformed l \<and> classify l = Some (Header n) \<and> sections st n \<noteq> None
           \<longrightarrow> process_line l cur st = Inr (Some n, st))"
proof -
  assume a: "inifile_ctor doc = Inr ini"
  have "\<forall>l n cur st. \<not> malformed l \<and> classify l = Some (Header n) \<and> sections st n \<noteq> None
           \<longrightarrow> process_line l cur st = Inr (Some n, st)"
    using header_reuse by blast
  with ctor_store [OF a] show ?thesis by blast
qed

theorem last_write_wins_witness:
  "\<exists>ini. inifile_ctor ''[a]\<newline>k=1\<newline>[b]\<newline>k=3\<newline>[ a ]\<newline>k=2\<newline>j=5'' = Inr ini
     \<and> inifile_get ini ''a'' ''k'' = Inr ''2''
     \<and> inifile_get ini ''a'' ''j'' = Inr ''5''
     \<and> inifile_get ini ''b'' ''k'' = Inr ''3''
     \<and> process_line ''[ a ]'' None \<lparr>sections = [''a'' \<mapsto> [''k'' \<mapsto> ''1'']], defaultsection = Map.empty\<rparr>
         = Inr (Some ''a'', \<lparr>sections = [''a'' \<mapsto> [''k'' \<mapsto> ''1'']], defaultsection = Map.empty\<rparr>)"
proof -
  let ?doc = "''[a]\<newline>k=1\<newline>[b]\<newline>k=3\<newline>[ a ]\<newline>k=2\<newline>j=5''"
  let ?ls = "[''[a]'', ''k=1'', ''[b]'', ''k=3'', ''[ a ]'', ''k=2'', ''j=5'']"
  have l: "lines_of ?doc = ?ls"
    by (simp add: lines_of_Nil lines_of_Cons)
  have "\<forall>l \<in> set ?ls. \<not> malformed l" by (simp add: line_eval)
  with l ctor_returns [of ?doc] obtain ini where i: "inifile_ctor ?doc = Inr ini" by auto
  have d: "declared ?ls = [''a'', ''b'', ''a'']" by (simp add: line_eval)
  have e: "entries_from None ?ls =
      [(Some ''a'', ''k'', ''1''), (Some ''b'', ''k'', ''3''), (Some ''a'', ''k'', ''2''),
       (Some ''a'', ''j'', ''5'')]"
    by (simp add: line_eval)
  from last_write_wins [OF i]
  have s: "sections ini sect =
           (if sect \<in> set (declared ?ls) then Some (last_value (entries_from None ?ls) (Some sect))
            else None)" for sect
    unfolding l by blast
  note s = s [unfolded d e]
  have "inifile_get ini ''a'' ''k'' = Inr ''2''"
    by (simp add: inifile_get_def s last_value_Cons last_value_Nil)
  moreover have "inifile_get ini ''a'' ''j'' = Inr ''5''"
    by (simp add: inifile_get_def s last_value_Cons last_value_Nil)
  moreover have "inifile_get ini ''b'' ''k'' = Inr ''3''"
    by (simp add: inifile_get_def s last_value_Cons last_value_Nil)
  moreover have "process_line ''[ a ]'' None \<lparr>sections = [''a'' \<mapsto> [''k'' \<mapsto> ''1'']], defaultsection = Map.empty\<rparr>
         = Inr (Some ''a'', \<lparr>sections = [''a'' \<mapsto> [''k'' \<mapsto> ''1'']], defaultsection = Map.empty\<rparr>)"
  proof -
    have "\<not> malformed ''[ a ]'' \<and> classify ''[ a ]'' = Some (Header ''a'')
          \<and> sections \<lparr>sections = [''a'' \<mapsto> [''k'' \<mapsto> ''1'']], defaultsection = Map.empty\<rparr> ''a'' \<noteq> None"
      by (simp add: line_eval)
    then show ?thesis
      by (rule last_write_wins [OF i, THEN conjunct2, THEN conjunct2, rule_format])
  qed
  ultimately show ?thesis using i by blast
qed

text \<open>
  C10. When \<open>get(section, key)\<close> fails because the section exists and the key is absent,
  it builds the exception with \<open>unknown_entry_error(section, key)\<close>, while the
  constructor's parameters are \<open>(key, section)\<close>: the message names the section as
  the unknown entry and the key as the section.
\<close>

theorem unknown_entry_arguments_swapped:
  "sections ini sect = Some kv \<Longrightarrow> kv key = None \<Longrightarrow>
     inifile_get ini sect key = Inl (unknown_entry_error_in sect key)
     \<and> inifile_get ini sect key =
         Inl (Unknown_entry_error (''Unknown entry '' @ quote @ sect @ quote @ '' in section ''
                                   @ quote @ key @ quote @ ''.''))"
  by (simp add: inifile_get_def unknown_entry_error_in_def)

theorem unknown_entry_arguments_swapped_witness:
  "sections \<lparr>sections = [''a'' \<mapsto> [''k'' \<mapsto> ''1'']], defaultsection = Map.empty\<rparr> ''a''
     = Some [''k'' \<mapsto> ''1'']
   \<and> [''k'' \<mapsto> ''1''] ''missing'' = None
   \<and> inifile_get \<lparr>sections = [''a'' \<mapsto> [''k'' \<mapsto> ''1'']], defaultsection = Map.empty\<rparr>
        ''a'' ''missing''
      = Inl (Unknown_entry_error (''Unknown entry '' @ [CHR 0x27] @ ''a'' @ [CHR 0x27]
             @ '' in section '' @ [CHR 0x27] @ ''missing'' @ [CHR 0x27] @ ''.''))"
proof -
  let ?ini = "\<lparr>sections = [''a'' \<mapsto> [''k'' \<mapsto> ''1'']], defaultsection = Map.empty\<rparr>"
  have a: "sections ?ini ''a'' = Some [''k'' \<mapsto> ''1'']" by simp
  have b: "[''k'' \<mapsto> ''1''] ''missing'' = None" by simp
  from unknown_entry_arguments_swapped [OF a b] a b show ?thesis by (simp add: quote_def unknown_entry_error_in_def)
qed

text \<open>
  C4. For every parsed store, section \<open>s\<close> and key \<open>k\<close>: \<open>get(s, k)\<close> throws an unknown
  section error exactly when no header of the document declares \<open>s\<close>; it throws an
  unknown entry error exactly when \<open>s\<close> is declared and no entry under \<open>s\<close> has the
  key \<open>k\<close>; otherwise it returns the stored text. \<open>section(s)\<close> throws an unknown
  section error exactly when \<open>s\<close> is not declared, and otherwise returns a handle
  whose \<open>get\<close> and \<open>dget\<close> equal the two-argument \<open>get\<close> and \<open>dget\<close> of the store.
\<close>

theorem lookup_errors:
  "inifile_ctor doc = Inr ini \<Longrightarrow>
     ((\<exists>m. inifile_get ini s k = Inl (Unknown_section_error m))
        \<longleftrightarrow> s \<notin> set (declared (lines_of doc)))
     \<and> ((\<exists>m. inifile_get ini s k = Inl (Unknown_entry_error m))
        \<longleftrightarrow> s \<in> set (declared (lines_of doc))
            \<and> (\<forall>v. (Some s, k, v) \<notin> set (entries_from None (lines_of doc))))
     \<and> (\<forall>v. inifile_get ini s k = Inr v
        \<longleftrightarrow> s \<in> set (declared (lines_of doc))
            \<and> last_value (entries_from None (lines_of doc)) (Some s) k = Some v)
     \<and> (\<forall>v. inifile_get ini s k = Inr v \<longleftrightarrow> (\<exists>kv. sections ini s = Some kv \<and> kv k = Some v))
     \<and> (\<forall>m. inifile_get ini s k \<noteq> Inl (Syntax_error m))
     \<and> ((\<exists>m. inifile_section ini s = Inl (Unknown_section_error m))
        \<longleftrightarrow> s \<notin> set (declared (lines_of doc)))
     \<and> (s \<in> set (declared (lines_of doc)) \<longrightarrow>
          (\<exists>h. inifile_section ini s = Inr h
             \<and> inisection_name h = s
             \<and> (\<forall>key. inisection_get h key = inifile_get ini s key)
             \<and> (\<forall>key d. inisection_dget h key d = inifile_dget ini s key d)))"
proof -
  assume a: "inifile_ctor doc = Inr ini"
  note g = ctor_get [OF a, of s k]
  note st = ctor_store(2) [OF a, of s]
  let ?es = "entries_from None (lines_of doc)"
  have c1: "(\<exists>m. inifile_get ini s k = Inl (Unknown_section_error m))
        \<longleftrightarrow> s \<notin> set (declared (lines_of doc))"
    unfolding g
    by (auto simp: unknown_section_error_def unknown_entry_error_in_def split: option.splits)
  have c2: "(\<exists>m. inifile_get ini s k = Inl (Unknown_entry_error m))
        \<longleftrightarrow> s \<in> set (declared (lines_of doc)) \<and> last_value ?es (Some s) k = None"
    unfolding g
    by (auto simp: unknown_section_error_def unknown_entry_error_in_def split: option.splits)
  have c3: "inifile_get ini s k = Inr v
        \<longleftrightarrow> s \<in> set (declared (lines_of doc)) \<and> last_value ?es (Some s) k = Some v" for v
    unfolding g by (auto split: option.splits)
  have c4: "inifile_get ini s k = Inr v \<longleftrightarrow> (\<exists>kv. sections ini s = Some kv \<and> kv k = Some v)"
    for v
    by (auto simp: inifile_get_def split: option.splits)
  have c5: "inifile_get ini s k \<noteq> Inl (Syntax_error m)" for m
    by (auto simp: inifile_get_def unknown_section_error_def unknown_entry_error_in_def
        split: option.splits)
  have c6: "(\<exists>m. inifile_section ini s = Inl (Unknown_section_error m))
        \<longleftrightarrow> s \<notin> set (declared (lines_of doc))"
    by (auto simp: inifile_section_def st unknown_section_error_def)
  have c7: "\<exists>h. inifile_section ini s = Inr h
             \<and> inisection_name h = s
             \<and> (\<forall>key. inisection_get h key = inifile_get ini s key)
             \<and> (\<forall>key d. inisection_dget h key d = inifile_dget ini s key d)"
    if "s \<in> set (declared (lines_of doc))"
    using that
    by (simp add: inifile_section_def st inisection_name_def inisection_get_def
        inisection_dget_def)
  note c2' = c2 [unfolded last_value_None]
  have c3': "\<forall>v. inifile_get ini s k = Inr v
        \<longleftrightarrow> s \<in> set (declared (lines_of doc)) \<and> last_value ?es (Some s) k = Some v"
    using c3 by blast
  have c4': "\<forall>v. inifile_get ini s k = Inr v \<longleftrightarrow> (\<exists>kv. sections ini s = Some kv \<and> kv k = Some v)"
    using c4 by blast
  have c5': "\<forall>m. inifile_get ini s k \<noteq> Inl (Syntax_error m)"
    using c5 by blast
  have c7': "s \<in> set (declared (lines_of doc)) \<longrightarrow>
          (\<exists>h. inifile_section ini s = Inr h
             \<and> inisection_name h = s
             \<and> (\<forall>key. inisection_get h key = inifile_get ini s key)
             \<and> (\<forall>key d. inisection_dget h key d = inifile_dget ini s key d))"
    using c7 by blast
  show ?thesis by (intro conjI c1 c2' c3' c4' c5' c6 c7')
qed

theorem lookup_errors_witness:
  "\<exists>ini. inifile_ctor ''[a]\<newline>k=1'' = Inr ini
     \<and> inifile_get ini ''a'' ''k'' = Inr ''1''
     \<and> (\<exists>m. inifile_get ini ''a'' ''j'' = Inl (Unknown_entry_error m))
     \<and> (\<exists>m. inifile_get ini ''b'' ''k'' = Inl (Unknown_section_error m))
     \<and> (\<exists>m. inifile_section ini ''b'' = Inl (Unknown_section_error m))
     \<and> (\<exists>h. inifile_section ini ''a'' = Inr h \<and> inisection_get h ''k'' = Inr ''1'')"
proof -
  let ?doc = "''[a]\<newline>k=1''"
  let ?ls = "[''[a]'', ''k=1'']"
  have l: "lines_of ?doc = ?ls" by (simp add: lines_of_Nil lines_of_Cons)
  have "\<forall>l \<in> set ?ls. \<not> malformed l" by (simp add: line_eval)
  with l ctor_returns [of ?doc] obtain ini where i: "inifile_ctor ?doc = Inr ini" by auto
  have d: "declared ?ls = [''a'']" by (simp add: line_eval)
  have e: "entries_from None ?ls = [(Some ''a'', ''k'', ''1'')]" by (simp add: line_eval)
  have lv: "last_value [(Some ''a'', ''k'', ''1'')] (Some ''a'') ''k'' = Some ''1''"
    by (simp add: last_value_Cons last_value_Nil)
  note t = lookup_errors [OF i, unfolded l d e]
  have in_a: "''a'' \<in> set [''a'']" and not_b: "''b'' \<notin> set [''a'']" by simp_all
  from t [of "''a''" "''k''", THEN conjunct2, THEN conjunct2, THEN conjunct1] in_a lv
  have g1: "inifile_get ini ''a'' ''k'' = Inr ''1''" by blast
  have nj: "\<forall>v. (Some ''a'', ''j'', v) \<notin> set [(Some ''a'', ''k'', ''1'')]" by simp
  from t [of "''a''" "''j''", THEN conjunct2, THEN conjunct1] in_a nj
  have g2: "\<exists>m. inifile_get ini ''a'' ''j'' = Inl (Unknown_entry_error m)" by blast
  from t [of "''b''" "''k''", THEN conjunct1] not_b
  have g3: "\<exists>m. inifile_get ini ''b'' ''k'' = Inl (Unknown_section_error m)" by blast
  from t [of "''b''" "''k''", THEN conjunct2, THEN conjunct2, THEN conjunct2, THEN conjunct2,
          THEN conjunct2, THEN conjunct1] not_b
  have g4: "\<exists>m. inifile_section ini ''b'' = Inl (Unknown_section_error m)" by blast
  from t [of "''a''" "''k''", THEN conjunct2, THEN conjunct2, THEN conjunct2, THEN conjunct2,
          THEN conjunct2, THEN conjunct2] in_a
  obtain h where h: "inifile_section ini ''a'' = Inr h"
    "\<forall>key. inisection_get h key = inifile_get ini ''a'' key" by blast
  from h g1 have g5: "\<exists>h. inifile_section ini ''a'' = Inr h \<and> inisection_get h ''k'' = Inr ''1''"
    by simp
  from i g1 g2 g3 g4 g5 show ?thesis by blast
qed

text \<open>
  C5. Both overloads of \<open>dget\<close> never fail. They return the fallback when the matching
  \<open>get\<close> throws, and the stored text unaltered otherwise; so the result is the
  fallback exactly when \<open>get\<close> throws or the stored text is the fallback itself. In a
  parsed store the stored text is trimmed and comment-stripped text.
\<close>

theorem dget_never_fails:
  "inifile_dget ini s k d = Inr (case inifile_get ini s k of Inl e \<Rightarrow> d | Inr v \<Rightarrow> v)
   \<and> inifile_dget1 ini k d = Inr (case inifile_get1 ini k of Inl e \<Rightarrow> d | Inr v \<Rightarrow> v)
   \<and> (inifile_dget ini s k d = Inr d
        \<longleftrightarrow> (\<exists>e. inifile_get ini s k = Inl e) \<or> inifile_get ini s k = Inr d)
   \<and> (inifile_dget1 ini k d = Inr d
        \<longleftrightarrow> (\<exists>e. inifile_get1 ini k = Inl e) \<or> inifile_get1 ini k = Inr d)
   \<and> (\<forall>doc v. inifile_ctor doc = Inr ini \<and> inifile_get ini s k = Inr v \<longrightarrow>
         inifile_dget ini s k d = Inr v \<and> trim v whitespace = v \<and> strip_comment v = v)
   \<and> (\<forall>doc v. inifile_ctor doc = Inr ini \<and> inifile_get1 ini k = Inr v \<longrightarrow>
         inifile_dget1 ini k d = Inr v \<and> trim v whitespace = v \<and> strip_comment v = v)"
proof -
  have a: "inifile_dget ini s k d = Inr (case inifile_get ini s k of Inl e \<Rightarrow> d | Inr v \<Rightarrow> v)"
    by (simp add: inifile_dget_def inifile_get_def unknown_section_error_def
        unknown_entry_error_in_def split: option.splits)
  have b: "inifile_dget1 ini k d = Inr (case inifile_get1 ini k of Inl e \<Rightarrow> d | Inr v \<Rightarrow> v)"
    by (simp add: inifile_dget1_def inifile_get1_def unknown_entry_error_def
        split: option.splits)
  have c: "inifile_dget ini s k d = Inr d
        \<longleftrightarrow> (\<exists>e. inifile_get ini s k = Inl e) \<or> inifile_get ini s k = Inr d"
    unfolding a by (cases "inifile_get ini s k") auto
  have c': "inifile_dget1 ini k d = Inr d
        \<longleftrightarrow> (\<exists>e. inifile_get1 ini k = Inl e) \<or> inifile_get1 ini k = Inr d"
    unfolding b by (cases "inifile_get1 ini k") auto
  have e: "inifile_dget ini s k d = Inr v \<and> trim v whitespace = v \<and> strip_comment v = v"
    if "inifile_ctor doc = Inr ini" "inifile_get ini s k = Inr v" for doc v
    using ctor_values_clean(1) [OF that] that(2) by (simp add: a clean_def)
  have f: "inifile_dget1 ini k d = Inr v \<and> trim v whitespace = v \<and> strip_comment v = v"
    if "inifile_ctor doc = Inr ini" "inifile_get1 ini k = Inr v" for doc v
    using ctor_values_clean(2) [OF that] that(2) by (simp add: b clean_def)
  from a b c c' e f show ?thesis by blast
qed

theorem dget_never_fails_witness:
  "\<exists>ini. inifile_ctor ''x = 7 ; seven\<newline>[a]\<newline>k = v w  # note'' = Inr ini
     \<and> inifile_get ini ''a'' ''k'' = Inr ''v w''
     \<and> inifile_dget ini ''a'' ''k'' ''zz'' = Inr ''v w''
     \<and> inifile_dget ini ''a'' ''j'' ''zz'' = Inr ''zz''
     \<and> inifile_dget ini ''b'' ''k'' ''zz'' = Inr ''zz''
     \<and> inifile_dget1 ini ''x'' ''zz'' = Inr ''7''
     \<and> inifile_dget1 ini ''k'' ''zz'' = Inr ''zz''"
proof -
  let ?doc = "''x = 7 ; seven\<newline>[a]\<newline>k = v w  # note''"
  let ?ls = "[''x = 7 ; seven'', ''[a]'', ''k = v w  # note'']"
  have l: "lines_of ?doc = ?ls" by (simp add: lines_of_Nil lines_of_Cons)
  have "\<forall>l \<in> set ?ls. \<not> malformed l" by (simp add: line_eval)
  with l ctor_returns [of ?doc] obtain ini where i: "inifile_ctor ?doc = Inr ini" by auto
  have d: "declared ?ls = [''a'']" by (simp add: line_eval)
  have e: "entries_from None ?ls = [(None, ''x'', ''7''), (Some ''a'', ''k'', ''v w'')]"
    by (simp add: line_eval)
  note g = ctor_get [OF i, unfolded l d e] ctor_get1 [OF i, unfolded l d e]
  have g1: "inifile_get ini ''a'' ''k'' = Inr ''v w''"
    by (simp add: g last_value_Cons last_value_Nil)
  have g2: "inifile_get ini ''a'' ''j'' = Inl (unknown_entry_error_in ''a'' ''j'')"
    by (simp add: g last_value_Cons last_value_Nil)
  have g3: "inifile_get ini ''b'' ''k'' = Inl (unknown_section_error ''b'')"
    by (simp add: g last_value_Cons last_value_Nil)
  have g4: "inifile_get1 ini ''x'' = Inr ''7''"
    by (simp add: g last_value_Cons last_value_Nil)
  have g5: "inifile_get1 ini ''k'' = Inl (unknown_entry_error ''k'')"
    by (simp add: g last_value_Cons last_value_Nil)
  from dget_never_fails [of ini "''a''" "''k''" "''zz''"] g1
  have h1: "inifile_dget ini ''a'' ''k'' ''zz'' = Inr ''v w''" by simp
  from dget_never_fails [of ini "''a''" "''j''" "''zz''"] g2
  have h2: "inifile_dget ini ''a'' ''j'' ''zz'' = Inr ''zz''" by simp
  from dget_never_fails [of ini "''b''" "''k''" "''zz''"] g3
  have h3: "inifile_dget ini ''b'' ''k'' ''zz'' = Inr ''zz''" by simp
  from dget_never_fails [of ini _ "''x''" "''zz''"] g4
  have h4: "inifile_dget1 ini ''x'' ''zz'' = Inr ''7''" by simp
  from dget_never_fails [of ini _ "''k''" "''zz''"] g5
  have h5: "inifile_dget1 ini ''k'' ''zz'' = Inr ''zz''" by simp
  from i g1 h1 h2 h3 h4 h5 show ?thesis by blast
qed

text \<open>
  C9. A line is trimmed before its comment is stripped and is not trimmed again. So a
  header line with whitespace and an end-of-line comment after the closing bracket
  (the header itself holding no comment mark) is left as the header followed by that
  whitespace: the closing-bracket check fails, the loop body throws a syntax error, and
  so does the constructor for every document with such a line, for example
  \<open>"[a] ; note"\<close>. The same header without the comment is accepted.
\<close>

theorem header_comment_syntax_error:
  "set ws \<subseteq> set whitespace \<Longrightarrow> ws \<noteq> [] \<Longrightarrow> m = CHR ''#'' \<or> m = CHR '';'' \<Longrightarrow>
   CHR ''#'' \<notin> set name \<Longrightarrow> CHR '';'' \<notin> set name \<Longrightarrow>
     strip_comment (trim (''['' @ name @ '']'' @ ws @ m # rest) whitespace) = ''['' @ name @ '']'' @ ws
     \<and> (\<forall>cur ini. process_line (''['' @ name @ '']'' @ ws @ m # rest) cur ini =
           Inl (syntax_error (''The section '' @ quote @ ''['' @ name @ '']'' @ ws @ quote
                              @ '' is missing a closing bracket.'')))
     \<and> (\<forall>doc. ''['' @ name @ '']'' @ ws @ m # rest \<in> set (lines_of doc)
           \<longrightarrow> (\<exists>msg. inifile_ctor doc = Inl (Syntax_error msg)))
     \<and> (\<forall>cur ini. process_line (''['' @ name @ '']'') cur ini =
           Inr (Some (trim name whitespace),
                ini\<lparr>sections := subscript (sections ini) (trim name whitespace)\<rparr>))"
proof -
  assume ws: "set ws \<subseteq> set whitespace" and ne: "ws \<noteq> []"
    and m: "m = CHR ''#'' \<or> m = CHR '';''"
    and nm: "CHR ''#'' \<notin> set name" "CHR '';'' \<notin> set name"
  let ?l = "''['' @ name @ '']'' @ ws @ m # rest"
  note c = header_comment_cleaned [OF ws nm m, of rest]
  from ne whitespace_no_marks [OF ws] have lw: "last ws \<noteq> CHR '']''"
    using last_in_set by metis
  have p: "process_line ?l cur ini =
           Inl (syntax_error (''The section '' @ quote @ ''['' @ name @ '']'' @ ws @ quote
                              @ '' is missing a closing bracket.''))" for cur ini
    unfolding process_line_eq c Let_def using ne lw by (simp add: syntax_error_def)
  have mal: "malformed ?l"
    unfolding malformed_def c Let_def using ne lw by simp
  have d: "\<exists>msg. inifile_ctor doc = Inl (Syntax_error msg)" if "?l \<in> set (lines_of doc)" for doc
    using that mal by (rule ctor_fails)
  have q: "process_line (''['' @ name @ '']'') cur ini =
           Inr (Some (trim name whitespace),
                ini\<lparr>sections := subscript (sections ini) (trim name whitespace)\<rparr>)" for cur ini
    unfolding process_line_eq header_plain_cleaned [OF nm] Let_def by (simp add: butlast_append)
  from c p d q show ?thesis by blast
qed

theorem header_comment_syntax_error_witness:
  "lines_of ''[a] ; note'' = [''[a] ; note'']
   \<and> strip_comment (trim ''[a] ; note'' whitespace) = ''[a] ''
   \<and> (\<exists>msg. inifile_ctor ''[a] ; note'' = Inl (Syntax_error msg))
   \<and> (\<exists>ini. inifile_ctor ''[a]'' = Inr ini)"
proof -
  have l: "lines_of ''[a] ; note'' = [''[a] ; note'']" by (simp add: lines_of_Nil lines_of_Cons)
  have h1: "set '' '' \<subseteq> set whitespace" by (simp add: whitespace_def)
  have h2: "'' '' \<noteq> []" by simp
  have h3: "CHR '';'' = CHR ''#'' \<or> CHR '';'' = CHR '';''" by simp
  have h4: "CHR ''#'' \<notin> set ''a''" and h5: "CHR '';'' \<notin> set ''a''" by simp_all
  note t = header_comment_syntax_error [OF h1 h2 h3 h4 h5, of "'' note''"]
  from t have c: "strip_comment (trim ''[a] ; note'' whitespace) = ''[a] ''" by simp
  from t have "\<forall>doc. ''[a] ; note'' \<in> set (lines_of doc)
           \<longrightarrow> (\<exists>msg. inifile_ctor doc = Inl (Syntax_error msg))" by simp
  with l have f: "\<exists>msg. inifile_ctor ''[a] ; note'' = Inl (Syntax_error msg)" by simp
  have l2: "lines_of ''[a]'' = [''[a]'']" by (simp add: lines_of_Nil lines_of_Cons)
  have "\<forall>l \<in> set [''[a]'']. \<not> malformed l" by (simp add: line_eval)
  with l2 ctor_returns [of "''[a]''"] have g: "\<exists>ini. inifile_ctor ''[a]'' = Inr ini" by auto
  from l c f g show ?thesis by blast
qed

text \<open>
  C3. For every successfully parsed document, the one-argument \<open>get(key)\<close> answers from
  the entries of the lines before the first section header (the last one with the key
  wins, and an unknown entry error is thrown when there is none); and an entry written
  after a header, before the next one, is found under that header's name by
  \<open>get(section, key)\<close>, unless the rest of the document writes the key under that name
  again. In particular \<open>"k=1\n[a]\nk=2"\<close> gives \<open>get("k") = "1"\<close> and
  \<open>get("a", "k") = "2"\<close>.
\<close>

theorem default_section:
  "(inifile_ctor doc = Inr ini \<longrightarrow>
      (\<forall>key. inifile_get1 ini key =
         (case last_of (plain_entries (takeWhile (\<lambda>l. \<not> is_header l) (lines_of doc))) key of
            None \<Rightarrow> Inl (unknown_entry_error key)
          | Some v \<Rightarrow> Inr v))
      \<and> (\<forall>pre h seg post n key v.
            lines_of doc = pre @ h # seg @ post \<and> classify h = Some (Header n)
            \<and> (\<forall>l \<in> set seg. \<not> is_header l)
            \<and> last_of (plain_entries seg) key = Some v
            \<and> (\<forall>w. (Some n, key, w) \<notin> set (entries_from (Some n) post))
            \<longrightarrow> inifile_get ini n key = Inr v))
   \<and> (\<exists>ex. inifile_ctor ''k=1\<newline>[a]\<newline>k=2'' = Inr ex
         \<and> inifile_get1 ex ''k'' = Inr ''1'' \<and> inifile_get ex ''a'' ''k'' = Inr ''2'')"
proof -
  have a: "inifile_get1 ini key =
         (case last_of (plain_entries (takeWhile (\<lambda>l. \<not> is_header l) (lines_of doc))) key of
            None \<Rightarrow> Inl (unknown_entry_error key)
          | Some v \<Rightarrow> Inr v)" if "inifile_ctor doc = Inr ini" for key
    unfolding ctor_get1 [OF that] default_section_prefix ..
  have b: "inifile_get ini n key = Inr v"
    if c: "inifile_ctor doc = Inr ini" and l: "lines_of doc = pre @ h # seg @ post"
      and h: "classify h = Some (Header n)"
      and seg: "\<forall>l \<in> set seg. \<not> is_header l"
      and v: "last_of (plain_entries seg) key = Some v"
      and post: "\<forall>w. (Some n, key, w) \<notin> set (entries_from (Some n) post)"
    for pre h seg post n key v
  proof -
    from h have "n \<in> set (declared (pre @ h # seg @ post))"
      by (simp add: declared_append)
    with after_header_section [OF h seg v post, of pre] show ?thesis
      unfolding ctor_get [OF c] l by simp
  qed
  let ?doc = "''k=1\<newline>[a]\<newline>k=2''"
  let ?ls = "[''k=1'', ''[a]'', ''k=2'']"
  have l: "lines_of ?doc = ?ls" by (simp add: lines_of_Nil lines_of_Cons)
  have "\<forall>l \<in> set ?ls. \<not> malformed l" by (simp add: line_eval)
  with l ctor_returns [of ?doc] obtain ex where i: "inifile_ctor ?doc = Inr ex" by auto
  have d: "declared ?ls = [''a'']" by (simp add: line_eval)
  have e: "entries_from None ?ls = [(None, ''k'', ''1''), (Some ''a'', ''k'', ''2'')]"
    by (simp add: line_eval)
  note g = ctor_get [OF i, unfolded l d e] ctor_get1 [OF i, unfolded l d e]
  have g1: "inifile_get1 ex ''k'' = Inr ''1''"
    by (simp add: g last_value_Cons last_value_Nil)
  have g2: "inifile_get ex ''a'' ''k'' = Inr ''2''"
    by (simp add: g last_value_Cons last_value_Nil)
  from i g1 g2 have c: "\<exists>ex. inifile_ctor ?doc = Inr ex
         \<and> inifile_get1 ex ''k'' = Inr ''1'' \<and> inifile_get ex ''a'' ''k'' = Inr ''2''" by blast
  from a b have ab: "inifile_ctor doc = Inr ini \<longrightarrow>
      (\<forall>key. inifile_get1 ini key =
         (case last_of (plain_entries (takeWhile (\<lambda>l. \<not> is_header l) (lines_of doc))) key of
            None \<Rightarrow> Inl (unknown_entry_error key)
          | Some v \<Rightarrow> Inr v))
      \<and> (\<forall>pre h seg post n key v.
            lines_of doc = pre @ h # seg @ post \<and> classify h = Some (Header n)
            \<and> (\<forall>l \<in> set seg. \<not> is_header l)
            \<and> last_of (plain_entries seg) key = Some v
            \<and> (\<forall>w. (Some n, key, w) \<notin> set (entries_from (Some n) post))
            \<longrightarrow> inifile_get ini n key = Inr v)"
    by blast
  from ab c show ?thesis by (rule conjI)
qed

theorem default_section_witness:
  "\<exists>ini. inifile_ctor ''j=0\<newline>k=1\<newline>[a]\<newline>k=2\<newline>[b]\<newline>k=3'' = Inr ini
     \<and> inifile_get1 ini ''k'' = Inr ''1'' \<and> inifile_get ini ''a'' ''k'' = Inr ''2''"
proof -
  let ?doc = "''j=0\<newline>k=1\<newline>[a]\<newline>k=2\<newline>[b]\<newline>k=3''"
  let ?ls = "[''j=0'', ''k=1'', ''[a]'', ''k=2'', ''[b]'', ''k=3'']"
  have l: "lines_of ?doc = ?ls" by (simp add: lines_of_Nil lines_of_Cons)
  have "\<forall>l \<in> set ?ls. \<not> malformed l" by (simp add: line_eval)
  with l ctor_returns [of ?doc] obtain ini where i: "inifile_ctor ?doc = Inr ini" by auto
  from default_section [of ?doc ini] i
  have a: "\<forall>key. inifile_get1 ini key =
         (case last_of (plain_entries (takeWhile (\<lambda>l. \<not> is_header l) ?ls)) key of
            None \<Rightarrow> Inl (unknown_entry_error key)
          | Some v \<Rightarrow> Inr v)"
    and b: "\<forall>pre h seg post n key v.
            ?ls = pre @ h # seg @ post \<and> classify h = Some (Header n)
            \<and> (\<forall>l \<in> set seg. \<not> is_header l)
            \<and> last_of (plain_entries seg) key = Some v
            \<and> (\<forall>w. (Some n, key, w) \<notin> set (entries_from (Some n) post))
            \<longrightarrow> inifile_get ini n key = Inr v"
    unfolding l by blast+
  have p: "plain_entries (takeWhile (\<lambda>l. \<not> is_header l) ?ls) = [(''j'', ''0''), (''k'', ''1'')]"
    by (simp add: is_header_def line_eval)
  from a have g1: "inifile_get1 ini ''k'' = Inr ''1''"
    unfolding p by (simp add: last_of_Cons last_of_Nil)
  have h1: "?ls = [''j=0'', ''k=1''] @ ''[a]'' # [''k=2''] @ [''[b]'', ''k=3'']" by simp
  have h2: "classify ''[a]'' = Some (Header ''a'')" by (simp add: line_eval)
  have h3: "\<forall>l \<in> set [''k=2'']. \<not> is_header l" by (simp add: is_header_def line_eval)
  have h4: "last_of (plain_entries [''k=2'']) ''k'' = Some ''2''"
    by (simp add: line_eval last_of_Cons last_of_Nil)
  have h5: "\<forall>w. (Some ''a'', ''k'', w) \<notin> set (entries_from (Some ''a'') [''[b]'', ''k=3''])"
    by (simp add: line_eval)
  from b h1 h2 h3 h4 h5 have g2: "inifile_get ini ''a'' ''k'' = Inr ''2''" by blast
  from i g1 g2 show ?thesis by blast
qed

text \<open>
  C6. For every parsed store, every extraction operator (every scalar type \<open>T\<close>) and all
  arguments: \<open>getval\<close> returns the default when \<open>get\<close> throws, whatever the exception,
  and when the extraction fails; when the extraction succeeds it returns the extracted
  value if only whitespace is left unread, and the default otherwise. In a parsed store
  the stored text is trimmed, so the value is returned exactly when the whole text is
  consumed. The section handle's \<open>getval\<close> agrees with the store's. A stored \<open>"42"\<close>
  read as \<open>int\<close> with default 0 gives 42; a stored \<open>"notabool"\<close> read as \<open>bool\<close> with
  default false gives false.
\<close>

theorem getval_default_or_parsed:
  "(\<forall>e. inifile_get ini sec key = Inl e \<longrightarrow> inifile_getval extr ini sec key def = def)
   \<and> (\<forall>src. inifile_get ini sec key = Inr src \<and> extr src = None
         \<longrightarrow> inifile_getval extr ini sec key def = def)
   \<and> (\<forall>src rv rest. inifile_get ini sec key = Inr src \<and> extr src = Some (rv, rest)
         \<longrightarrow> inifile_getval extr ini sec key def
             = (if \<forall>c \<in> set rest. isspace c then rv else def))
   \<and> (\<forall>doc src rv rest pre.
         inifile_ctor doc = Inr ini \<and> inifile_get ini sec key = Inr src
         \<and> extr src = Some (rv, rest) \<and> src = pre @ rest
         \<longrightarrow> inifile_getval extr ini sec key def = (if rest = [] then rv else def))
   \<and> (\<forall>h. inifile_section ini sec = Inr h
         \<longrightarrow> inisection_getval extr h key def = inifile_getval extr ini sec key def)
   \<and> (inifile_get ini sec key = Inr ''42'' \<longrightarrow> inifile_getval extract_int ini sec key 0 = 42)
   \<and> (inifile_get ini sec key = Inr ''notabool''
         \<longrightarrow> inifile_getval extract_bool ini sec key False = False)"
proof (intro conjI allI impI)
  fix e
  assume "inifile_get ini sec key = Inl e"
  then show "inifile_getval extr ini sec key def = def" by (rule getval_Inl)
next
  fix src
  assume "inifile_get ini sec key = Inr src \<and> extr src = None"
  then have a: "inifile_get ini sec key = Inr src" and b: "extr src = None" by simp_all
  show "inifile_getval extr ini sec key def = def"
    by (rule getval_None [where extr = extr and src = src, OF a b])
next
  fix src rv rest
  assume "inifile_get ini sec key = Inr src \<and> extr src = Some (rv, rest)"
  then have a: "inifile_get ini sec key = Inr src" and b: "extr src = Some (rv, rest)"
    by simp_all
  show "inifile_getval extr ini sec key def = (if \<forall>c \<in> set rest. isspace c then rv else def)"
    by (rule getval_Some [where extr = extr and src = src, OF a b])
next
  fix doc src rv rest pre
  assume "inifile_ctor doc = Inr ini \<and> inifile_get ini sec key = Inr src
         \<and> extr src = Some (rv, rest) \<and> src = pre @ rest"
  then have a: "inifile_ctor doc = Inr ini" and b: "inifile_get ini sec key = Inr src"
    and c: "extr src = Some (rv, rest)" and d: "src = pre @ rest" by blast+
  show "inifile_getval extr ini sec key def = (if rest = [] then rv else def)"
    by (rule getval_parsed [where extr = extr and src = src, OF a b c d])
next
  fix h
  assume "inifile_section ini sec = Inr h"
  then show "inisection_getval extr h key def = inifile_getval extr ini sec key def"
    by (rule section_getval)
next
  assume a: "inifile_get ini sec key = Inr ''42''"
  from getval_Some [where extr = extract_int and src = "''42''" and def = 0, OF a extract_int_42]
  show "inifile_getval extract_int ini sec key 0 = 42"
    by simp
next
  assume a: "inifile_get ini sec key = Inr ''notabool''"
  from getval_None [where extr = extract_bool and src = "''notabool''", OF a extract_bool_notabool]
  show "inifile_getval extract_bool ini sec key False = False" .
qed

theorem getval_default_or_parsed_witness:
  "\<exists>ini. inifile_ctor ''[a]\<newline>n = 42\<newline>m = 42x\<newline>flag = notabool'' = Inr ini
     \<and> inifile_getval extract_int ini ''a'' ''n'' 0 = 42
     \<and> inifile_getval extract_int ini ''a'' ''m'' 7 = 7
     \<and> inifile_getval extract_int ini ''a'' ''absent'' 7 = 7
     \<and> inifile_getval extract_int ini ''nowhere'' ''n'' 7 = 7
     \<and> inifile_getval extract_bool ini ''a'' ''flag'' False = False"
proof -
  let ?doc = "''[a]\<newline>n = 42\<newline>m = 42x\<newline>flag = notabool''"
  let ?ls = "[''[a]'', ''n = 42'', ''m = 42x'', ''flag = notabool'']"
  have l: "lines_of ?doc = ?ls" by (simp add: lines_of_Nil lines_of_Cons)
  have "\<forall>l \<in> set ?ls. \<not> malformed l" by (simp add: line_eval)
  with l ctor_returns [of ?doc] obtain ini where i: "inifile_ctor ?doc = Inr ini" by auto
  have d: "declared ?ls = [''a'']" by (simp add: line_eval)
  have e: "entries_from None ?ls =
      [(Some ''a'', ''n'', ''42''), (Some ''a'', ''m'', ''42x''), (Some ''a'', ''flag'', ''notabool'')]"
    by (simp add: line_eval)
  note g = ctor_get [OF i, unfolded l d e]
  have g1: "inifile_get ini ''a'' ''n'' = Inr ''42''"
    by (simp add: g last_value_Cons last_value_Nil)
  have g2: "inifile_get ini ''a'' ''m'' = Inr ''42x''"
    by (simp add: g last_value_Cons last_value_Nil)
  have g3: "inifile_get ini ''a'' ''absent'' = Inl (unknown_entry_error_in ''a'' ''absent'')"
    by (simp add: g last_value_Cons last_value_Nil)
  have g4: "inifile_get ini ''nowhere'' ''n'' = Inl (unknown_section_error ''nowhere'')"
    by (simp add: g)
  have g5: "inifile_get ini ''a'' ''flag'' = Inr ''notabool''"
    by (simp add: g last_value_Cons last_value_Nil)
  have x: "extract_int ''42x'' = Some (42, ''x'')"
    by (simp add: extract_int_def skipws_def isspace_def isdigit_def decimal_def digit_val_def)
  note t = getval_default_or_parsed [where ini = ini and extr = extract_int]
  note u = getval_default_or_parsed [where ini = ini and extr = extract_bool]
  have r1: "inifile_getval extract_int ini ''a'' ''n'' 0 = 42"
    by (rule t [THEN conjunct2, THEN conjunct2, THEN conjunct2, THEN conjunct2, THEN conjunct2,
          THEN conjunct1, rule_format]) (rule g1)
  have "inifile_getval extract_int ini ''a'' ''m'' 7 = (if ''x'' = [] then 42 else 7)"
    by (rule t [THEN conjunct2, THEN conjunct2, THEN conjunct2, THEN conjunct1, rule_format,
          where src = "''42x''" and pre = "''42''"])
      (intro conjI, rule i, rule g2, rule x, simp)
  then have r2: "inifile_getval extract_int ini ''a'' ''m'' 7 = 7" by simp
  have r3: "inifile_getval extract_int ini ''a'' ''absent'' 7 = 7"
    by (rule t [THEN conjunct1, rule_format]) (rule g3)
  have r4: "inifile_getval extract_int ini ''nowhere'' ''n'' 7 = 7"
    by (rule t [THEN conjunct1, rule_format]) (rule g4)
  have r5: "inifile_getval extract_bool ini ''a'' ''flag'' False = False"
    by (rule u [THEN conjunct2, THEN conjunct2, THEN conjunct2, THEN conjunct2, THEN conjunct2,
          THEN conjunct2, rule_format]) (rule g5)
  from i r1 r2 r3 r4 r5 show ?thesis by blast
qed


text \<open>
  C7, as the claim states it: a stored letter-case variant of \<open>"true"\<close> such as
  \<open>"TRUE"\<close>, read as \<open>bool\<close> with default false, would give true. It does not: the
  document \<open>"[a]\nf=TRUE"\<close> stores \<open>"TRUE"\<close>, and \<open>getval\<close> returns the default false.
\<close>

theorem bool_case_insensitive_counterexample:
  "case_variant ''TRUE'' ''true''
   \<and> inifile_ctor ''[a]\<newline>f=TRUE''
       = Inr \<lparr>sections = [''a'' \<mapsto> [''f'' \<mapsto> ''TRUE'']], defaultsection = Map.empty\<rparr>
   \<and> inifile_get \<lparr>sections = [''a'' \<mapsto> [''f'' \<mapsto> ''TRUE'']], defaultsection = Map.empty\<rparr>
        ''a'' ''f'' = Inr ''TRUE''
   \<and> inifile_getval extract_bool
        \<lparr>sections = [''a'' \<mapsto> [''f'' \<mapsto> ''TRUE'']], defaultsection = Map.empty\<rparr>
        ''a'' ''f'' False = False"
proof -
  have a: "case_variant ''TRUE'' ''true''" by (simp add: case_variant_def to_upper_def)
  have b: "inifile_ctor ''[a]\<newline>f=TRUE''
       = Inr \<lparr>sections = [''a'' \<mapsto> [''f'' \<mapsto> ''TRUE'']], defaultsection = Map.empty\<rparr>"
    by (simp add: inifile_ctor_def inifile_loop_lines lines_of_Nil lines_of_Cons process_line_eq
        trim_eval subscript_def store_entry_def)
  have c: "inifile_get \<lparr>sections = [''a'' \<mapsto> [''f'' \<mapsto> ''TRUE'']], defaultsection = Map.empty\<rparr>
        ''a'' ''f'' = Inr ''TRUE''"
    by (simp add: inifile_get_def)
  have d: "extract_bool ''TRUE'' = None" by (simp add: extract_bool_def skipws_def isspace_def)
  from c d have e: "inifile_getval extract_bool
        \<lparr>sections = [''a'' \<mapsto> [''f'' \<mapsto> ''TRUE'']], defaultsection = Map.empty\<rparr>
        ''a'' ''f'' False = False"
    by (simp add: inifile_getval_def)
  from a b c e show ?thesis by (intro conjI)
qed

text \<open>
  C7, amended. Boolean \<open>getval\<close> compares the stored text with \<open>"true"\<close> and \<open>"false"\<close>
  character by character: a stored \<open>"true"\<close> gives true and a stored \<open>"false"\<close> gives
  false, whatever the default; every other letter-case variant of the two words (such
  as \<open>"TRUE"\<close> or \<open>"True"\<close>) is not parsed, and \<open>getval\<close> returns the default.
\<close>

theorem bool_case_sensitive:
  "inifile_get ini sec key = Inr src \<Longrightarrow>
     (src = ''true'' \<longrightarrow> inifile_getval extract_bool ini sec key def = True)
     \<and> (src = ''false'' \<longrightarrow> inifile_getval extract_bool ini sec key def = False)
     \<and> ((case_variant src ''true'' \<or> case_variant src ''false'')
          \<and> src \<noteq> ''true'' \<and> src \<noteq> ''false''
          \<longrightarrow> inifile_getval extract_bool ini sec key def = def)"
proof -
  assume g: "inifile_get ini sec key = Inr src"
  have a: "inifile_getval extract_bool ini sec key def = True" if "src = ''true''"
    using getval_Some [where extr = extract_bool and def = def, OF g [unfolded that]
        extract_bool_true] that
    by simp
  have b: "inifile_getval extract_bool ini sec key def = False" if "src = ''false''"
    using getval_Some [where extr = extract_bool and def = def, OF g [unfolded that]
        extract_bool_false] that
    by simp
  have c: "inifile_getval extract_bool ini sec key def = def"
    if "case_variant src ''true'' \<or> case_variant src ''false''" "src \<noteq> ''true''"
      "src \<noteq> ''false''"
    using getval_None [where extr = extract_bool, OF g extract_bool_variant [OF that]] .
  from a b c show ?thesis by blast
qed

theorem bool_case_sensitive_witness:
  "\<exists>ini. inifile_ctor ''[a]\<newline>p = true\<newline>q = false\<newline>r = True\<newline>s = FALSE'' = Inr ini
     \<and> inifile_getval extract_bool ini ''a'' ''p'' False = True
     \<and> inifile_getval extract_bool ini ''a'' ''q'' True = False
     \<and> inifile_getval extract_bool ini ''a'' ''r'' False = False
     \<and> inifile_getval extract_bool ini ''a'' ''s'' True = True"
proof -
  let ?doc = "''[a]\<newline>p = true\<newline>q = false\<newline>r = True\<newline>s = FALSE''"
  let ?ls = "[''[a]'', ''p = true'', ''q = false'', ''r = True'', ''s = FALSE'']"
  have l: "lines_of ?doc = ?ls" by (simp add: lines_of_Nil lines_of_Cons)
  have "\<forall>l \<in> set ?ls. \<not> malformed l" by (simp add: line_eval)
  with l ctor_returns [of ?doc] obtain ini where i: "inifile_ctor ?doc = Inr ini" by auto
  have d: "declared ?ls = [''a'']" by (simp add: line_eval)
  have e: "entries_from None ?ls =
      [(Some ''a'', ''p'', ''true''), (Some ''a'', ''q'', ''false''),
       (Some ''a'', ''r'', ''True''), (Some ''a'', ''s'', ''FALSE'')]"
    by (simp add: line_eval)
  note g = ctor_get [OF i, unfolded l d e]
  have g1: "inifile_get ini ''a'' ''p'' = Inr ''true''"
    by (simp add: g last_value_Cons last_value_Nil)
  have g2: "inifile_get ini ''a'' ''q'' = Inr ''false''"
    by (simp add: g last_value_Cons last_value_Nil)
  have g3: "inifile_get ini ''a'' ''r'' = Inr ''True''"
    by (simp add: g last_value_Cons last_value_Nil)
  have g4: "inifile_get ini ''a'' ''s'' = Inr ''FALSE''"
    by (simp add: g last_value_Cons last_value_Nil)
  have v3: "(case_variant ''True'' ''true'' \<or> case_variant ''True'' ''false'')
      \<and> ''True'' \<noteq> ''true'' \<and> ''True'' \<noteq> ''false''"
    by (simp add: case_variant_def to_upper_def)
  have v4: "(case_variant ''FALSE'' ''true'' \<or> case_variant ''FALSE'' ''false'')
      \<and> ''FALSE'' \<noteq> ''true'' \<and> ''FALSE'' \<noteq> ''false''"
    by (simp add: case_variant_def to_upper_def)
  have r1: "inifile_getval extract_bool ini ''a'' ''p'' False = True"
    by (rule bool_case_sensitive [OF g1, THEN conjunct1, rule_format]) (rule refl)
  have r2: "inifile_getval extract_bool ini ''a'' ''q'' True = False"
    by (rule bool_case_sensitive [OF g2, THEN conjunct2, THEN conjunct1, rule_format]) (rule refl)
  have r3: "inifile_getval extract_bool ini ''a'' ''r'' False = False"
    by (rule bool_case_sensitive [OF g3, THEN conjunct2, THEN conjunct2, rule_format]) (rule v3)
  have r4: "inifile_getval extract_bool ini ''a'' ''s'' True = True"
    by (rule bool_case_sensitive [OF g4, THEN conjunct2, THEN conjunct2, rule_format]) (rule v4)
  from i r1 r2 r3 r4 show ?thesis by blast
qed

end
